theory Spec2Isabelle
  imports Main "HOL-Library.AList" "HOL-Library.Char_ord" "HOL-Library.List_Lexorder"
    "HOL-Library.Word"
begin

section \<open>URLs and the net/url library\<close>

text \<open>
  The crawler of \<^verbatim>\<open>sitemapper.go\<close> works on Go's \<^verbatim>\<open>*url.URL\<close>. The record below
  holds the components of a URL; the repository itself reads only \<^verbatim>\<open>Host\<close>
  (in \<^verbatim>\<open>ValidateHosts\<close>), everything else goes through the library.
\<close>

record URL =
  Scheme :: string
  Host :: string
  Path :: string
  RawQuery :: string
  Fragment :: string

text \<open>
  Errors are values. \<^verbatim>\<open>EOF\<close> is \<^verbatim>\<open>io.EOF\<close>, \<^verbatim>\<open>ErrNoLocation\<close> is
  \<^verbatim>\<open>http.ErrNoLocation\<close>, \<^verbatim>\<open>HttpGetError e\<close> is
  \<^verbatim>\<open>fmt.Errorf("http get error: %q", e)\<close>, \<^verbatim>\<open>ConfigError\<close> carries the message of
  \<^verbatim>\<open>Config.Validate\<close>, \<^verbatim>\<open>NoAccess s\<close> is
  \<^verbatim>\<open>fmt.Errorf("unable to access url %s", s)\<close>, and \<^verbatim>\<open>Failure\<close> is any other
  error of the libraries (a socket error, a URL that does not parse, ...).
\<close>

datatype error =
    EOF
  | ErrNoLocation
  | HttpGetError error
  | ConfigError string
  | NoAccess string
  | Failure string

text \<open>
  The functions of Go's \<^verbatim>\<open>net/url\<close> that the crawler calls are not part of the
  repository. They are a parameter of the model: \<^verbatim>\<open>url.Parse\<close>,
  \<^verbatim>\<open>(*URL).ResolveReference\<close> (first argument the receiver) and \<^verbatim>\<open>(*URL).String\<close>.
  Every theorem below holds for every such library.
\<close>

record net_url =
  url_Parse :: "string \<Rightarrow> error + URL"
  url_ResolveReference :: "URL \<Rightarrow> URL \<Rightarrow> URL"
  url_String :: "URL \<Rightarrow> string"

text \<open>
  A small instance of the library, on which the model is run at concrete inputs: it knows
  absolute-path references only (\<^verbatim>\<open>/about\<close>), rejects the string \<^verbatim>\<open>%\<close> as
  \<^verbatim>\<open>url.Parse\<close> does, and serialises a URL as scheme, \<^verbatim>\<open>://\<close>, host, path.
\<close>

definition demo_Parse :: "string \<Rightarrow> error + URL" where
  "demo_Parse s =
     (if s = ''%'' then Inl (Failure ''invalid URL escape'')
      else Inr \<lparr>Scheme = '''', Host = '''', Path = s, RawQuery = '''', Fragment = ''''\<rparr>)"

definition demo_ResolveReference :: "URL \<Rightarrow> URL \<Rightarrow> URL" where
  "demo_ResolveReference base ref =
     (if Host ref = '''' then base\<lparr>Path := Path ref, RawQuery := RawQuery ref,
        Fragment := Fragment ref\<rparr> else ref)"

definition demo_String :: "URL \<Rightarrow> string" where
  "demo_String u = Scheme u @ ''://'' @ Host u @ Path u"

definition demo_lib :: net_url where
  "demo_lib = \<lparr>url_Parse = demo_Parse, url_ResolveReference = demo_ResolveReference,
     url_String = demo_String\<rparr>"

definition mkURL :: "string \<Rightarrow> string \<Rightarrow> string \<Rightarrow> URL" where
  "mkURL s h p = \<lparr>Scheme = s, Host = h, Path = p, RawQuery = '''', Fragment = ''''\<rparr>"

section \<open>The site map\<close>

text \<open>
  \<^verbatim>\<open>ValidateHosts\<close>, the default domain validator: \<^verbatim>\<open>root.Host == link.Host\<close>.
\<close>

definition ValidateHosts :: "URL \<Rightarrow> URL \<Rightarrow> bool" where
  "ValidateHosts root link = (Host root = Host link)"

text \<open>
  \<^verbatim>\<open>SiteMap\<close>. The Go map \<^verbatim>\<open>siteURLS map[string]bool\<close> is an association list;
  a key that is absent reads as \<^verbatim>\<open>false\<close>, as in Go. The association list fixes an
  order of the keys where Go's iteration order is unspecified; \<^verbatim>\<open>WriteMap\<close> sorts the
  keys, so nothing depends on it. The lock \<^verbatim>\<open>rwl\<close> holds no data: the sequential
  functions below run one call at a time, and the interleaving models further down cut a
  call at its lock regions.
\<close>

record SiteMap =
  url :: URL
  siteURLS :: "(string \<times> bool) list"
  validator :: "URL \<Rightarrow> URL \<Rightarrow> bool"

definition lookupURL :: "(string \<times> bool) list \<Rightarrow> string \<Rightarrow> bool" where
  "lookupURL m k = (case map_of m k of None \<Rightarrow> False | Some b \<Rightarrow> b)"

definition NewSiteMap :: "URL \<Rightarrow> (URL \<Rightarrow> URL \<Rightarrow> bool) \<Rightarrow> SiteMap" where
  "NewSiteMap u v = \<lparr>url = u, siteURLS = [], validator = v\<rparr>"

text \<open>
  \<^verbatim>\<open>appendURL\<close>, run without interference: the validator, the check under the read lock
  (\<^verbatim>\<open>maybeCrawl\<close>), and the second check with the write under the write lock.
\<close>

definition appendURL :: "net_url \<Rightarrow> SiteMap \<Rightarrow> URL \<Rightarrow> bool \<times> SiteMap" where
  "appendURL lib s u =
     (if \<not> validator s (url s) u then (False, s)
      else
        let urlString = url_String lib u;
            maybeCrawl = \<not> lookupURL (siteURLS s) urlString
        in if \<not> maybeCrawl then (False, s)
           else
             let crawl = \<not> lookupURL (siteURLS s) urlString
             in (crawl, s\<lparr>siteURLS := AList.update urlString True (siteURLS s)\<rparr>))"

text \<open>
  \<^verbatim>\<open>WriteMap\<close>: the keys of the map, sorted by \<^verbatim>\<open>sort.Strings\<close> (bytewise
  lexicographic order, which is the order of \<^typ>\<open>string\<close> here), each written to
  \<^verbatim>\<open>out\<close> followed by a newline. The writer is the string written so far; the site map
  is returned with it, since the method has a pointer receiver.
\<close>

definition WriteMap :: "SiteMap \<Rightarrow> string \<Rightarrow> SiteMap \<times> string" where
  "WriteMap s out =
     (let paths = sort (map fst (siteURLS s))
      in (s, foldl (\<lambda>w path. w @ path @ [CHR 0x0A]) out paths))"

text \<open>The strings a site map has admitted: the keys whose value is \<^verbatim>\<open>true\<close>.\<close>

definition admitted :: "SiteMap \<Rightarrow> string set" where
  "admitted s = {k. lookupURL (siteURLS s) k}"


text \<open>
  The two lock regions of \<^verbatim>\<open>appendURL\<close>, for the models in which calls interleave. The
  first is the validator and the read of the map under \<^verbatim>\<open>RLock\<close>: its value tells
  whether the call goes on to the write lock (otherwise it returns \<^verbatim>\<open>false\<close>). The
  second is the region under \<^verbatim>\<open>Lock\<close>: it reads the map again, sets the key, and its
  value is what the call returns.
\<close>

definition appendURL_RLock :: "net_url \<Rightarrow> SiteMap \<Rightarrow> URL \<Rightarrow> bool" where
  "appendURL_RLock lib s u =
     (validator s (url s) u \<and> \<not> lookupURL (siteURLS s) (url_String lib u))"

definition appendURL_Lock :: "net_url \<Rightarrow> SiteMap \<Rightarrow> URL \<Rightarrow> bool \<times> SiteMap" where
  "appendURL_Lock lib s u =
     (let urlString = url_String lib u;
          crawl = \<not> lookupURL (siteURLS s) urlString
      in (crawl, s\<lparr>siteURLS := AList.update urlString True (siteURLS s)\<rparr>))"

text \<open>
  Concurrent callers of \<^verbatim>\<open>appendURL\<close> on one site map. A caller is before its read
  lock (\<^verbatim>\<open>Calling\<close>), between the read lock and the write lock (\<^verbatim>\<open>Waiting\<close>), or
  has returned (\<^verbatim>\<open>Returned\<close>, with its candidate and its answer). A schedule names the
  caller that runs its next lock region; a caller that has returned does nothing.
\<close>

datatype caller = Calling URL | Waiting URL | Returned URL bool

fun caller_step :: "net_url \<Rightarrow> SiteMap \<Rightarrow> caller \<Rightarrow> SiteMap \<times> caller" where
  "caller_step lib s (Calling u) =
     (if appendURL_RLock lib s u then (s, Waiting u) else (s, Returned u False))"
| "caller_step lib s (Waiting u) =
     (case appendURL_Lock lib s u of (crawl, s') \<Rightarrow> (s', Returned u crawl))"
| "caller_step lib s (Returned u b) = (s, Returned u b)"

definition callers_step :: "net_url \<Rightarrow> nat \<Rightarrow> SiteMap \<times> caller list \<Rightarrow> SiteMap \<times> caller list" where
  "callers_step lib i sc =
     (case sc of (s, cs) \<Rightarrow>
        if i < length cs
        then (case caller_step lib s (cs ! i) of (s', c') \<Rightarrow> (s', cs[i := c']))
        else (s, cs))"

definition callers_run :: "net_url \<Rightarrow> nat list \<Rightarrow> SiteMap \<times> caller list \<Rightarrow> SiteMap \<times> caller list" where
  "callers_run lib sched sc = fold (callers_step lib) sched sc"

fun has_returned :: "caller \<Rightarrow> bool" where
  "has_returned (Returned u b) = True"
| "has_returned c = False"

fun candidate :: "caller \<Rightarrow> URL" where
  "candidate (Calling u) = u"
| "candidate (Waiting u) = u"
| "candidate (Returned u b) = u"

text \<open>The callers that have returned \<^verbatim>\<open>true\<close> for the canonical string \<open>k\<close>.\<close>

fun granted :: "net_url \<Rightarrow> string \<Rightarrow> caller \<Rightarrow> bool" where
  "granted lib k (Returned u b) = (b \<and> url_String lib u = k)"
| "granted lib k c = False"

section \<open>Configuration\<close>

text \<open>
  An HTTP response as the link reader sees it: the status code, the result of
  \<^verbatim>\<open>resp.Location()\<close>, the result of \<^verbatim>\<open>resp.Body.Close()\<close>, the tokens that
  \<^verbatim>\<open>html.NewTokenizer(resp.Body)\<close> yields before its \<^verbatim>\<open>ErrorToken\<close>, and the error
  \<^verbatim>\<open>doc.Err()\<close> reports then (\<^verbatim>\<open>io.EOF\<close> at the regular end of the body). A token is one
  of the token types of \<^verbatim>\<open>golang.org/x/net/html\<close>; tags carry their name and attributes.
\<close>

datatype token =
    TextToken
  | StartTagToken string "(string \<times> string) list"
  | EndTagToken string
  | SelfClosingTagToken string "(string \<times> string) list"
  | CommentToken
  | DoctypeToken

record response =
  StatusCode :: int
  Location :: "error + URL"
  BodyClose :: "error option"
  Body :: "token list"
  BodyErr :: error

text \<open>
  The HTTP client with the server behind it: the answer to a \<^verbatim>\<open>GET\<close> of a URL string
  issued at a logical time (the number of steps the crawl has taken), so that a server may
  answer the same URL differently over time.
\<close>

type_synonym client = "nat \<Rightarrow> string \<Rightarrow> error + response"

datatype zap_Logger = ZapLogger

record Config =
  MaxConcurrency :: int
  MaxPendingURLS :: int
  CrawlTimeout :: int
  KeepAlive :: int
  Timeout :: int
  Client :: "client option"
  Logger :: "zap_Logger option"
  DomainValidator :: "(URL \<Rightarrow> URL \<Rightarrow> bool) option"

definition DefaultMaxConcurrency :: int where "DefaultMaxConcurrency = 8"
definition DefaultMaxPendingURLS :: int where "DefaultMaxPendingURLS = 8192"
definition DefaultCrawlTimeout :: int where "DefaultCrawlTimeout = 0"
definition DefaultTimeout :: int where "DefaultTimeout = 10 * 1000000000"
definition DefaultKeepAlive :: int where "DefaultKeepAlive = 30 * 1000000000"

text \<open>The options: \<^verbatim>\<open>optionFunc\<close> is a function on the configuration.\<close>

definition SetMaxConcurrency :: "int \<Rightarrow> Config \<Rightarrow> Config" where
  "SetMaxConcurrency maxConcurrency config = config\<lparr>MaxConcurrency := maxConcurrency\<rparr>"

definition SetMaxPendingURLS :: "int \<Rightarrow> Config \<Rightarrow> Config" where
  "SetMaxPendingURLS maxPendingURLS config = config\<lparr>MaxPendingURLS := maxPendingURLS\<rparr>"


definition SetKeepAlive :: "int \<Rightarrow> Config \<Rightarrow> Config" where
  "SetKeepAlive keepAlive config = config\<lparr>KeepAlive := keepAlive\<rparr>"

definition SetTimeout :: "int \<Rightarrow> Config \<Rightarrow> Config" where
  "SetTimeout timeout config = config\<lparr>Timeout := timeout\<rparr>"

definition SetClient :: "client option \<Rightarrow> Config \<Rightarrow> Config" where
  "SetClient c config = config\<lparr>Client := c\<rparr>"

definition SetLogger :: "zap_Logger option \<Rightarrow> Config \<Rightarrow> Config" where
  "SetLogger logger config = config\<lparr>Logger := logger\<rparr>"

definition SetDomainValidator :: "(URL \<Rightarrow> URL \<Rightarrow> bool) option \<Rightarrow> Config \<Rightarrow> Config" where
  "SetDomainValidator v config = config\<lparr>DomainValidator := v\<rparr>"

text \<open>
  \<^verbatim>\<open>NewConfig\<close>: the defaults, the options in order, then a default for each collaborator
  that is still nil. The default client is built from Go's \<^verbatim>\<open>net/http\<close>; it is a
  parameter.
\<close>

definition NewConfig :: "client \<Rightarrow> (Config \<Rightarrow> Config) list \<Rightarrow> Config" where
  "NewConfig defaultClient options =
     (let config = \<lparr>MaxConcurrency = DefaultMaxConcurrency,
            MaxPendingURLS = DefaultMaxPendingURLS,
            CrawlTimeout = DefaultCrawlTimeout,
            KeepAlive = DefaultKeepAlive,
            Timeout = DefaultTimeout,
            Client = None, Logger = None, DomainValidator = None\<rparr>;
          config = fold (\<lambda>opt c. opt c) options config;
          config = (if Option.is_none (Client config) then config\<lparr>Client := Some defaultClient\<rparr>
                    else config);
          config = (if Option.is_none (Logger config) then config\<lparr>Logger := Some ZapLogger\<rparr>
                    else config);
          config = (if Option.is_none (DomainValidator config)
                    then config\<lparr>DomainValidator := Some ValidateHosts\<rparr> else config)
      in config)"

text \<open>\<^verbatim>\<open>Config.Validate\<close>: the first failing check decides; \<^verbatim>\<open>None\<close> is \<^verbatim>\<open>nil\<close>.\<close>

definition Validate :: "Config \<Rightarrow> error option" where
  "Validate config =
     (if MaxConcurrency config \<le> 0
        then Some (ConfigError ''config.MaxConcurrency must be greater than 0'')
      else if MaxPendingURLS config \<le> 0
        then Some (ConfigError ''config.MaxPendingURLS must be greater than 0'')
      else if KeepAlive config < 0
        then Some (ConfigError ''config.KeepAlive duration should be >= 0s'')
      else if Timeout config < 0
        then Some (ConfigError ''config.Timeout duration should be >= 0s'')
      else if Option.is_none (Client config)
        then Some (ConfigError ''config.Client must be defined'')
      else if Option.is_none (Logger config)
        then Some (ConfigError ''config.Logger must be defined'')
      else if Option.is_none (DomainValidator config)
        then Some (ConfigError ''config.DomainValidator must be defined'')
      else None)"

section \<open>The link reader\<close>

record LinkReader =
  client :: client
  pageURL :: URL
  response :: "response option"
  doc :: "token list option"
  done' :: bool

definition NewLinkReader :: "URL \<Rightarrow> client \<Rightarrow> LinkReader" where
  "NewLinkReader p c = \<lparr>client = c, pageURL = p, response = None, doc = None, done' = False\<rparr>"

text \<open>
  The loop over \<^verbatim>\<open>TagAttr\<close>: the value of the first attribute whose key is
  \<^verbatim>\<open>href\<close>, if the tag has one.
\<close>

fun findHref :: "(string \<times> string) list \<Rightarrow> string option" where
  "findHref [] = None"
| "findHref ((key, v) # moreAttr) = (if key = ''href'' then Some v else findHref moreAttr)"

text \<open>
  The loop over \<^verbatim>\<open>doc.Next()\<close>: the next \<^verbatim>\<open>href\<close> of a start tag \<^verbatim>\<open>a\<close> that has
  attributes, with the tokens left after it; \<^verbatim>\<open>None\<close> when the tokenizer reaches its
  \<^verbatim>\<open>ErrorToken\<close>.
\<close>

fun nextHref :: "token list \<Rightarrow> string option \<times> token list" where
  "nextHref [] = (None, [])"
| "nextHref (StartTagToken tn attrs # ts) =
     (if tn = ''a'' \<and> attrs \<noteq> []
      then (case findHref attrs of Some v \<Rightarrow> (Some v, ts) | None \<Rightarrow> nextHref ts)
      else nextHref ts)"
| "nextHref (t # ts) = nextHref ts"

definition scanLinks :: "response \<Rightarrow> token list \<Rightarrow> LinkReader \<Rightarrow> (error + string) \<times> LinkReader" where
  "scanLinks resp toks u =
     (case nextHref toks of
        (Some v, ts) \<Rightarrow> (Inr v, u\<lparr>doc := Some ts\<rparr>)
      | (None, ts) \<Rightarrow>
          (case BodyClose resp of
             Some closeErr \<Rightarrow> (Inl closeErr, u\<lparr>doc := Some ts\<rparr>)
           | None \<Rightarrow> (Inl (BodyErr resp), u\<lparr>doc := Some ts\<rparr>)))"

text \<open>
  \<^verbatim>\<open>LinkReader.Read\<close> at logical time \<open>now\<close>. The case of a tokenizer without a
  response cannot arise (\<^verbatim>\<open>Read\<close> sets both together); Go would fail on the nil
  response there. On the redirect path the source closes the body before it looks at the
  \<^verbatim>\<open>Location\<close> header; the reader it leaves behind when the header fails keeps the
  tokenizer, and what a further \<^verbatim>\<open>Read\<close> of it would get from the closed body is not
  modelled: \<^verbatim>\<open>realAllLinks\<close> stops reading a page at the first error.
\<close>

definition Read :: "net_url \<Rightarrow> nat \<Rightarrow> LinkReader \<Rightarrow> (error + string) \<times> LinkReader" where
  "Read lib now u =
     (if done' u then (Inl EOF, u)
      else
        (case doc u of
           None \<Rightarrow>
             (case client u now (url_String lib (pageURL u)) of
                Inl respErr \<Rightarrow> (Inl (HttpGetError respErr), u)
              | Inr resp \<Rightarrow>
                  let u1 = u\<lparr>response := Some resp, doc := Some (Body resp)\<rparr>
                  in if 300 \<le> StatusCode resp \<and> StatusCode resp \<le> 399
                     then
                       (case BodyClose resp of
                          Some err \<Rightarrow> (Inl err, u1)
                        | None \<Rightarrow>
                            (case Location resp of
                               Inl err \<Rightarrow> (Inl err, u1)
                             | Inr locationURL \<Rightarrow>
                                 (Inr (url_String lib locationURL), u1\<lparr>done' := True\<rparr>)))
                     else scanLinks resp (Body resp) u1)
         | Some toks \<Rightarrow>
             (case response u of
                Some resp \<Rightarrow> scanLinks resp toks u
              | None \<Rightarrow> (Inl (Failure ''nil response''), u))))"

definition Close :: "LinkReader \<Rightarrow> error option \<times> LinkReader" where
  "Close u =
     (case response u of
        Some resp \<Rightarrow> (BodyClose resp, u\<lparr>done' := True\<rparr>)
      | None \<Rightarrow> (None, u\<lparr>done' := True\<rparr>))"

definition LinkReader_URL :: "net_url \<Rightarrow> LinkReader \<Rightarrow> string" where
  "LinkReader_URL lib u = url_String lib (pageURL u)"

section \<open>The domain crawler\<close>

text \<open>
  \<^verbatim>\<open>DomainCrawler\<close>. The channel \<^verbatim>\<open>pendingURLS\<close> is its buffer (oldest first) and
  whether it is closed; its capacity is \<^verbatim>\<open>config.MaxPendingURLS\<close>. The wait group
  \<^verbatim>\<open>pendingURLSRemaining\<close> is its counter. \<^verbatim>\<open>accessedPageCount\<close> is an
  \<^verbatim>\<open>atomic.Uint64\<close>.
\<close>

record DomainCrawler =
  root :: URL
  config :: Config
  siteMap :: SiteMap
  pendingURLS :: "URL list"
  pendingURLS_closed :: bool
  pendingURLSRemaining :: int
  accessedPageCount :: "64 word"
  timedOut :: bool

text \<open>
  \<^verbatim>\<open>NewDomainCrawler\<close>. After \<^verbatim>\<open>Validate\<close> has passed the validator is not nil, so the
  last case below cannot arise.
\<close>

definition NewDomainCrawler :: "URL \<Rightarrow> Config \<Rightarrow> error + DomainCrawler" where
  "NewDomainCrawler r cfg =
     (case Validate cfg of
        Some configError \<Rightarrow> Inl configError
      | None \<Rightarrow>
          (case DomainValidator cfg of
             Some v \<Rightarrow>
               Inr \<lparr>root = r, config = cfg, siteMap = NewSiteMap r v,
                    pendingURLS = [r], pendingURLS_closed = False,
                    pendingURLSRemaining = 1, accessedPageCount = 0, timedOut = False\<rparr>
           | None \<Rightarrow> Inl (ConfigError ''config.DomainValidator must be defined'')))"

subsection \<open>What a crawl does: the trace\<close>

text \<open>
  The operations of a crawl on the world and on its synchronisation objects, in the order
  they happen: the calls of the logger (level, message, fields), the sends and receives on
  \<^verbatim>\<open>pendingURLS\<close> and its \<^verbatim>\<open>close\<close>, the \<^verbatim>\<open>Add(1)\<close>, \<^verbatim>\<open>Done()\<close> and the
  return of \<^verbatim>\<open>Wait()\<close> of the wait group, each \<^verbatim>\<open>client.Get\<close>, and each link that
  \<^verbatim>\<open>linkReader.Read\<close> hands to \<^verbatim>\<open>realAllLinks\<close> (the page and the \<^verbatim>\<open>href\<close>). The
  trace records; no step reads it.
\<close>

datatype level = DebugLevel | WarnLevel | ErrorLevel

datatype field = zap_String string string | zap_Error error

datatype action =
    Log level string "field list"
  | Send URL
  | Recv URL
  | WgAdd
  | WgDone
  | WgWait
  | CloseChan
  | Get string
  | LinkRead URL string

subsection \<open>Goroutines\<close>

text \<open>
  \<^verbatim>\<open>Crawl\<close> starts \<^verbatim>\<open>MaxConcurrency\<close> goroutines running \<^verbatim>\<open>drainURLS\<close>, one more
  that sets \<^verbatim>\<open>timedOut\<close> after the crawl timeout (when that is positive), and waits
  itself. The model interleaves them: each goroutine is at a program point, and a step
  runs one goroutine from its point to the next, across one access to what the goroutines
  share (the channel, the wait group, the site map under one of its locks, the counter,
  the flag). The points of a worker, in \<^verbatim>\<open>drainURLS\<close> and \<^verbatim>\<open>realAllLinks\<close>:

  \<^item> \<^verbatim>\<open>AtRange\<close>: at \<^verbatim>\<open>for pageURL := range crawler.pendingURLS\<close>;
  \<^item> \<^verbatim>\<open>AtTimedOut pageURL\<close>: before \<^verbatim>\<open>crawler.timedOut.Load()\<close>;
  \<^item> \<^verbatim>\<open>AtRead linkReader\<close>: before \<^verbatim>\<open>linkReader.Read()\<close>;
  \<^item> \<^verbatim>\<open>AtParse linkReader hrefString\<close>: after \<^verbatim>\<open>accessedPageCount.Add(1)\<close>, before
    \<^verbatim>\<open>url.Parse\<close> and the read lock of \<^verbatim>\<open>appendURL\<close>;
  \<^item> \<^verbatim>\<open>AtLock linkReader hrefResolved\<close>: in \<^verbatim>\<open>appendURL\<close>, before the write lock;
  \<^item> \<^verbatim>\<open>AtSelect linkReader hrefResolved\<close>: \<^verbatim>\<open>appendURL\<close> has returned true, before
    the \<^verbatim>\<open>select\<close>;
  \<^item> \<^verbatim>\<open>AtAdd linkReader\<close>: the send has succeeded, before
    \<^verbatim>\<open>pendingURLSRemaining.Add(1)\<close>;
  \<^item> \<^verbatim>\<open>AtDone\<close>: before \<^verbatim>\<open>pendingURLSRemaining.Done()\<close>;
  \<^item> \<^verbatim>\<open>Exited\<close>: the range loop has ended.

  The points of \<^verbatim>\<open>Crawl\<close> itself: in \<^verbatim>\<open>Wait()\<close>, before \<^verbatim>\<open>close\<close>, before
  \<^verbatim>\<open>accessedPageCount.Load()\<close>, and returned (with the error, if any; without one it
  returns \<^verbatim>\<open>crawler.siteMap\<close>).
\<close>

datatype worker =
    AtRange
  | AtTimedOut URL
  | AtRead LinkReader
  | AtParse LinkReader string
  | AtLock LinkReader URL
  | AtSelect LinkReader URL
  | AtAdd LinkReader
  | AtDone
  | Exited

datatype main_point = AtWait | AtClose | AtLoad | Finished "error option"

record crawl = DomainCrawler +
  workers :: "worker list"
  main :: main_point
  trace :: "action list"
  clock :: nat
  panicked :: "string option"

datatype actor = Worker nat | Timer | Main

definition goto :: "nat \<Rightarrow> worker \<Rightarrow> crawl \<Rightarrow> crawl" where
  "goto i w s = s\<lparr>workers := (workers s)[i := w]\<rparr>"

definition emit :: "action list \<Rightarrow> crawl \<Rightarrow> crawl" where
  "emit as s = s\<lparr>trace := trace s @ as\<rparr>"

definition panic :: "string \<Rightarrow> crawl \<Rightarrow> crawl" where
  "panic msg s = s\<lparr>panicked := Some msg\<rparr>"

text \<open>The state in which \<^verbatim>\<open>Crawl\<close> has started its goroutines and is about to wait.\<close>

definition Crawl_start :: "DomainCrawler \<Rightarrow> crawl" where
  "Crawl_start c =
     \<lparr>root = root c, config = config c, siteMap = siteMap c,
      pendingURLS = pendingURLS c, pendingURLS_closed = pendingURLS_closed c,
      pendingURLSRemaining = pendingURLSRemaining c,
      accessedPageCount = accessedPageCount c, timedOut = timedOut c,
      workers = replicate (nat (MaxConcurrency (config c))) AtRange,
      main = AtWait,
      trace = [Send (root c), WgAdd],
      clock = 0,
      panicked = None\<rparr>"

text \<open>
  One step of worker \<open>i\<close> from its program point. Where the source logs, the step emits
  the call; a send on a closed channel, a \<^verbatim>\<open>Done()\<close> that would make the counter
  negative and the use of a nil client panic, as in Go.
\<close>

fun worker_step :: "net_url \<Rightarrow> nat \<Rightarrow> crawl \<Rightarrow> worker \<Rightarrow> crawl" where
  "worker_step lib i s AtRange =
     (case pendingURLS s of
        [] \<Rightarrow> goto i Exited s
      | page # rest \<Rightarrow>
          emit [Recv page,
                Log DebugLevel ''crawling page for links'' [zap_String ''url'' (url_String lib page)]]
            (goto i (AtTimedOut page) (s\<lparr>pendingURLS := rest\<rparr>)))"
| "worker_step lib i s (AtTimedOut page) =
     (if timedOut s
      then emit [Log DebugLevel ''skipping url due to timeout''
                   [zap_String ''url'' (url_String lib page)]]
             (goto i AtDone s)
      else (case Client (config s) of
              None \<Rightarrow> panic ''nil pointer dereference'' s
            | Some c \<Rightarrow> goto i (AtRead (NewLinkReader page c)) s))"
| "worker_step lib i s (AtRead linkReader) =
     (let s1 = (if \<not> done' linkReader \<and> Option.is_none (doc linkReader)
                then emit [Get (LinkReader_URL lib linkReader)] s else s)
      in case Read lib (clock s) linkReader of
           (Inl hrefErr, linkReader') \<Rightarrow>
             goto i AtDone
               (if hrefErr \<noteq> EOF
                then emit [Log WarnLevel ''error reading link from channel''
                             [zap_String ''page'' (LinkReader_URL lib linkReader'),
                              zap_Error hrefErr]] s1
                else s1)
         | (Inr hrefString, linkReader') \<Rightarrow>
             emit [LinkRead (pageURL linkReader') hrefString]
               (goto i (AtParse linkReader' hrefString)
                  (s1\<lparr>accessedPageCount := accessedPageCount s1 + 1\<rparr>)))"
| "worker_step lib i s (AtParse linkReader hrefString) =
     (case url_Parse lib hrefString of
        Inl hrefParseErr \<Rightarrow>
          emit [Log WarnLevel ''error parsing url''
                  [zap_String ''page'' (LinkReader_URL lib linkReader),
                   zap_String ''link'' hrefString, zap_Error hrefParseErr]]
            (goto i (AtRead linkReader) s)
      | Inr hrefURL \<Rightarrow>
          let hrefResolved = url_ResolveReference lib (pageURL linkReader) hrefURL
          in if appendURL_RLock lib (siteMap s) hrefResolved
             then goto i (AtLock linkReader hrefResolved) s
             else goto i (AtRead linkReader) s)"
| "worker_step lib i s (AtLock linkReader hrefResolved) =
     (case appendURL_Lock lib (siteMap s) hrefResolved of
        (crawl, siteMap') \<Rightarrow>
          if crawl
          then emit [Log DebugLevel ''found new page''
                       [zap_String ''page'' (url_String lib hrefResolved)]]
                 (goto i (AtSelect linkReader hrefResolved) (s\<lparr>siteMap := siteMap'\<rparr>))
          else goto i (AtRead linkReader) (s\<lparr>siteMap := siteMap'\<rparr>))"
| "worker_step lib i s (AtSelect linkReader hrefResolved) =
     (if pendingURLS_closed s then panic ''send on closed channel'' s
      else if int (length (pendingURLS s)) < MaxPendingURLS (config s)
      then emit [Send hrefResolved,
                 Log DebugLevel ''page appended to channel''
                   [zap_String ''page'' (url_String lib hrefResolved)]]
             (goto i (AtAdd linkReader) (s\<lparr>pendingURLS := pendingURLS s @ [hrefResolved]\<rparr>))
      else emit [Log ErrorLevel ''too many pending urls, page will be ignored''
                   [zap_String ''page'' (url_String lib hrefResolved),
                    zap_String ''link'' (LinkReader_URL lib linkReader)]]
             (goto i (AtRead linkReader) s))"
| "worker_step lib i s (AtAdd linkReader) =
     emit [WgAdd]
       (goto i (AtRead linkReader) (s\<lparr>pendingURLSRemaining := pendingURLSRemaining s + 1\<rparr>))"
| "worker_step lib i s AtDone =
     (if pendingURLSRemaining s \<le> 0 then panic ''sync: negative WaitGroup counter'' s
      else emit [WgDone]
             (goto i AtRange (s\<lparr>pendingURLSRemaining := pendingURLSRemaining s - 1\<rparr>)))"
| "worker_step lib i s Exited = s"

fun main_step :: "net_url \<Rightarrow> crawl \<Rightarrow> main_point \<Rightarrow> crawl" where
  "main_step lib s AtWait = emit [WgWait] (s\<lparr>main := AtClose\<rparr>)"
| "main_step lib s AtClose =
     (if pendingURLS_closed s then panic ''close of closed channel'' s
      else emit [CloseChan] (s\<lparr>pendingURLS_closed := True, main := AtLoad\<rparr>))"
| "main_step lib s AtLoad =
     (if accessedPageCount s = 0
      then s\<lparr>main := Finished (Some (NoAccess (url_String lib (root s))))\<rparr>
      else s\<lparr>main := Finished None\<rparr>)"
| "main_step lib s (Finished r) = s"

text \<open>
  When a goroutine cannot run: after a panic nothing runs; a worker waits at the range
  loop while the channel is empty and open, and is gone once it has left the loop;
  \<^verbatim>\<open>Wait()\<close> returns only at counter zero; the timer exists only for a positive crawl
  timeout and fires once.
\<close>

fun blocked :: "actor \<Rightarrow> crawl \<Rightarrow> bool" where
  "blocked (Worker i) s =
     (panicked s \<noteq> None \<or> length (workers s) \<le> i
      \<or> (case workers s ! i of
            AtRange \<Rightarrow> pendingURLS s = [] \<and> \<not> pendingURLS_closed s
          | Exited \<Rightarrow> True
          | _ \<Rightarrow> False))"
| "blocked Timer s =
     (panicked s \<noteq> None \<or> CrawlTimeout (config s) \<le> 0 \<or> timedOut s)"
| "blocked Main s =
     (panicked s \<noteq> None
      \<or> (case main s of
            AtWait \<Rightarrow> pendingURLSRemaining s \<noteq> 0
          | Finished r \<Rightarrow> True
          | _ \<Rightarrow> False))"

fun act :: "net_url \<Rightarrow> actor \<Rightarrow> crawl \<Rightarrow> crawl" where
  "act lib (Worker i) s = worker_step lib i s (workers s ! i)"
| "act lib Timer s = s\<lparr>timedOut := True\<rparr>"
| "act lib Main s = main_step lib s (main s)"

definition step :: "net_url \<Rightarrow> actor \<Rightarrow> crawl \<Rightarrow> crawl" where
  "step lib a s = (if blocked a s then s else (act lib a s)\<lparr>clock := Suc (clock s)\<rparr>)"

text \<open>A schedule is the order in which the Go scheduler lets the goroutines step.\<close>

definition run :: "net_url \<Rightarrow> actor list \<Rightarrow> crawl \<Rightarrow> crawl" where
  "run lib sched s = fold (step lib) sched s"

text \<open>
  What \<^verbatim>\<open>Crawl\<close> has returned in a state, if it has: the error, or the site map.
\<close>

definition Crawl_result :: "crawl \<Rightarrow> (error + SiteMap) option" where
  "Crawl_result s =
     (case main s of
        Finished (Some err) \<Rightarrow> Some (Inl err)
      | Finished None \<Rightarrow> Some (Inr (siteMap s))
      | _ \<Rightarrow> None)"

text \<open>
  \<^verbatim>\<open>CrawlDomainWithURL\<close> under a schedule: the result of \<^verbatim>\<open>Crawl\<close> (\<^verbatim>\<open>None\<close> while
  it has not returned within the schedule) and the trace of what was done.
\<close>

definition CrawlDomainWithURL ::
  "net_url \<Rightarrow> client \<Rightarrow> actor list \<Rightarrow> URL \<Rightarrow> (Config \<Rightarrow> Config) list
     \<Rightarrow> (error + SiteMap) option \<times> action list" where
  "CrawlDomainWithURL lib defaultClient sched r opts =
     (let cfg = NewConfig defaultClient opts
      in case NewDomainCrawler r cfg of
           Inl crawlerError \<Rightarrow> (Some (Inl crawlerError), [])
         | Inr crawler \<Rightarrow>
             (let s = run lib sched (Crawl_start crawler)
              in (Crawl_result s, trace s)))"

definition CrawlDomain ::
  "net_url \<Rightarrow> client \<Rightarrow> actor list \<Rightarrow> string \<Rightarrow> (Config \<Rightarrow> Config) list
     \<Rightarrow> (error + SiteMap) option \<times> action list" where
  "CrawlDomain lib defaultClient sched rootURL opts =
     (case url_Parse lib rootURL of
        Inl rootErr \<Rightarrow> (Some (Inl rootErr), [])
      | Inr r \<Rightarrow> CrawlDomainWithURL lib defaultClient sched r opts)"

text \<open>
  What the site maps of a crawl have in common: the keys are distinct (it is a map) and
  every value is \<^verbatim>\<open>true\<close> (\<^verbatim>\<open>appendURL\<close> stores nothing else).
\<close>

definition wf_SiteMap :: "SiteMap \<Rightarrow> bool" where
  "wf_SiteMap s = (distinct (map fst (siteURLS s)) \<and> list_all snd (siteURLS s))"

section \<open>Invariants\<close>

text \<open>
  The invariant of interleaved callers of \<^verbatim>\<open>appendURL\<close>, used in the proofs below. A
  candidate is in domain when the validator accepts it against the root. A caller waiting
  for the write lock has an in-domain candidate; a caller that returned true has an
  in-domain candidate that is admitted now; one that returned false had a candidate out of
  domain or admitted. For a string \<open>k\<close>, exactly one caller has returned true once \<open>k\<close>
  has been admitted since the start \<open>s0\<close>, and none before.
\<close>

definition in_domain :: "SiteMap \<Rightarrow> URL \<Rightarrow> bool" where
  "in_domain s u = validator s (url s) u"

fun caller_ok :: "net_url \<Rightarrow> SiteMap \<Rightarrow> caller \<Rightarrow> bool" where
  "caller_ok lib s (Calling u) = True"
| "caller_ok lib s (Waiting u) = in_domain s u"
| "caller_ok lib s (Returned u b) =
     (if b then in_domain s u \<and> url_String lib u \<in> admitted s
      else \<not> in_domain s u \<or> url_String lib u \<in> admitted s)"

definition callers_inv ::
  "net_url \<Rightarrow> string \<Rightarrow> SiteMap \<Rightarrow> URL list \<Rightarrow> SiteMap \<times> caller list \<Rightarrow> bool" where
  "callers_inv lib k s0 us sc =
     (case sc of (s, cs) \<Rightarrow>
        url s = url s0 \<and> validator s = validator s0
        \<and> map candidate cs = us
        \<and> admitted s0 \<subseteq> admitted s
        \<and> admitted s \<subseteq> admitted s0 \<union> {url_String lib u | u. u \<in> set us \<and> in_domain s0 u}
        \<and> length (filter (granted lib k) cs) = (if k \<in> admitted s \<and> k \<notin> admitted s0 then 1 else 0)
        \<and> list_all (caller_ok lib s) cs)"

section \<open>Concrete inputs\<close>

text \<open>The inputs on which the theorems below are run.\<close>

definition demo_root :: URL where
  "demo_root = mkURL ''http'' ''example.com'' ''/''"

definition demo_map :: SiteMap where
  "demo_map = \<lparr>url = demo_root,
     siteURLS = [(''http://example.com/b'', True), (''http://example.com/'', True),
                 (''http://example.com/a'', True)],
     validator = ValidateHosts\<rparr>"

definition demo_a :: URL where
  "demo_a = mkURL ''http'' ''example.com'' ''/a''"

definition demo_other :: URL where
  "demo_other = mkURL ''https'' ''other.org'' ''/''"

text \<open>
  A page with the given links, a small site (the root links to \<^verbatim>\<open>/a\<close> and \<^verbatim>\<open>/b\<close>,
  \<^verbatim>\<open>/a\<close> links to \<^verbatim>\<open>/c\<close>, \<^verbatim>\<open>/d\<close> and \<^verbatim>\<open>/e\<close>, every other page has no
  links), a permanent redirect, and a 304 response, which carries no \<^verbatim>\<open>Location\<close>.
\<close>

definition links_page :: "string list \<Rightarrow> response" where
  "links_page hrefs =
     \<lparr>StatusCode = 200, Location = Inl ErrNoLocation, BodyClose = None,
      Body = map (\<lambda>h. StartTagToken ''a'' [(''href'', h)]) hrefs, BodyErr = EOF\<rparr>"

definition demo_site :: client where
  "demo_site now u =
     (if u = ''http://example.com/'' then Inr (links_page [''/a'', ''/b''])
      else if u = ''http://example.com/a'' then Inr (links_page [''/c'', ''/d'', ''/e''])
      else Inr (links_page []))"

definition moved :: "URL \<Rightarrow> response" where
  "moved target =
     \<lparr>StatusCode = 301, Location = Inr target, BodyClose = None,
      Body = [StartTagToken ''a'' [(''href'', ''/hidden'')]], BodyErr = EOF\<rparr>"

definition not_modified :: response where
  "not_modified =
     \<lparr>StatusCode = 304, Location = Inl ErrNoLocation, BodyClose = None, Body = [], BodyErr = EOF\<rparr>"

definition demo_hidden :: URL where
  "demo_hidden = mkURL ''http'' ''example.com'' ''/hidden''"

section \<open>Reading a trace, counting workers\<close>

text \<open>\<open>num P xs\<close> is the number of elements of \<open>xs\<close> that satisfy \<open>P\<close>.\<close>

definition num :: "('a \<Rightarrow> bool) \<Rightarrow> 'a list \<Rightarrow> int" where
  "num P xs = int (length (filter P xs))"

text \<open>The kinds of actions in a trace.\<close>

fun is_Send :: "action \<Rightarrow> bool" where
  "is_Send (Send u) = True"
| "is_Send a = False"

fun is_Recv :: "action \<Rightarrow> bool" where
  "is_Recv (Recv u) = True"
| "is_Recv a = False"

fun is_WgAdd :: "action \<Rightarrow> bool" where
  "is_WgAdd WgAdd = True"
| "is_WgAdd a = False"

fun is_WgDone :: "action \<Rightarrow> bool" where
  "is_WgDone WgDone = True"
| "is_WgDone a = False"

fun is_WgWait :: "action \<Rightarrow> bool" where
  "is_WgWait WgWait = True"
| "is_WgWait a = False"

fun is_CloseChan :: "action \<Rightarrow> bool" where
  "is_CloseChan CloseChan = True"
| "is_CloseChan a = False"

fun is_LinkRead :: "action \<Rightarrow> bool" where
  "is_LinkRead (LinkRead p h) = True"
| "is_LinkRead a = False"

text \<open>
  A worker is busy from its receive of a page to its \<^verbatim>\<open>Done()\<close> for it. It is at its add
  between a send and the \<^verbatim>\<open>Add(1)\<close> that registers the sent URL. It owes a unit of the
  wait group when it is busy and not at its add: then the unit of its page is counted and
  every URL it sent has been registered.
\<close>

fun busy :: "worker \<Rightarrow> bool" where
  "busy AtRange = False"
| "busy Exited = False"
| "busy w = True"

fun owes :: "worker \<Rightarrow> bool" where
  "owes AtRange = False"
| "owes Exited = False"
| "owes (AtAdd linkReader) = False"
| "owes w = True"

fun at_add :: "worker \<Rightarrow> bool" where
  "at_add (AtAdd linkReader) = True"
| "at_add w = False"

text \<open>
  The discipline of the wait group and the channel, read off a trace from a counter
  \<open>n\<close>: every \<^verbatim>\<open>Done()\<close> happens at a positive counter (it never goes negative),
  \<^verbatim>\<open>Wait()\<close> returns only at counter zero, and the channel is closed only after
  \<^verbatim>\<open>Wait()\<close> has returned and only if it is not closed yet.
\<close>

fun sync_ok :: "int \<Rightarrow> bool \<Rightarrow> bool \<Rightarrow> action list \<Rightarrow> bool" where
  "sync_ok n waited closed [] = True"
| "sync_ok n waited closed (WgAdd # tr) = sync_ok (n + 1) waited closed tr"
| "sync_ok n waited closed (WgDone # tr) = (0 < n \<and> sync_ok (n - 1) waited closed tr)"
| "sync_ok n waited closed (WgWait # tr) = (n = 0 \<and> sync_ok n True closed tr)"
| "sync_ok n waited closed (CloseChan # tr) = (waited \<and> \<not> closed \<and> sync_ok n waited True tr)"
| "sync_ok n waited closed (a # tr) = sync_ok n waited closed tr"

text \<open>
  The log entries of \<^verbatim>\<open>realAllLinks\<close>: "found new page" after \<^verbatim>\<open>appendURL\<close> returned
  true, and the only entry at error level, for a URL dropped at a full backlog, with the
  string of the dropped URL as its first field.
\<close>

fun is_found :: "action \<Rightarrow> bool" where
  "is_found (Log DebugLevel msg fs) = (msg = ''found new page'')"
| "is_found a = False"

fun is_drop :: "action \<Rightarrow> bool" where
  "is_drop (Log ErrorLevel msg fs) = True"
| "is_drop a = False"

fun drop_page :: "action \<Rightarrow> string option" where
  "drop_page (Log ErrorLevel msg (zap_String key k # fs)) = Some k"
| "drop_page a = None"

definition dropped :: "action list \<Rightarrow> string set" where
  "dropped tr = set (List.map_filter drop_page tr)"

text \<open>The part of a trace after its last receive.\<close>

definition since_Recv :: "action list \<Rightarrow> action list" where
  "since_Recv tr = rev (takeWhile (\<lambda>a. \<not> is_Recv a) (rev tr))"

fun is_exited :: "worker \<Rightarrow> bool" where
  "is_exited Exited = True"
| "is_exited w = False"

fun at_select :: "worker \<Rightarrow> bool" where
  "at_select (AtSelect linkReader u) = True"
| "at_select w = False"

fun at_done :: "worker \<Rightarrow> bool" where
  "at_done AtDone = True"
| "at_done w = False"

fun selecting :: "net_url \<Rightarrow> string \<Rightarrow> worker \<Rightarrow> bool" where
  "selecting lib k (AtSelect linkReader u) = (url_String lib u = k)"
| "selecting lib k w = False"

text \<open>
  A string is linked in a trace when a page that was received from the backlog has yielded
  an \<^verbatim>\<open>href\<close> that parses and resolves, against that page, to a URL with this string.
\<close>

definition linked :: "net_url \<Rightarrow> action list \<Rightarrow> string \<Rightarrow> bool" where
  "linked lib tr k =
     (\<exists>page h hu. Recv page \<in> set tr \<and> LinkRead page h \<in> set tr
        \<and> url_Parse lib h = Inr hu
        \<and> url_String lib (url_ResolveReference lib page hu) = k)"

section \<open>Invariants of a crawl\<close>

text \<open>
  What holds in every state of a crawl, under every schedule; the proofs are below. A
  worker's page has been received, and the link it is working on was read from that page:
\<close>

fun link_ok :: "net_url \<Rightarrow> action list \<Rightarrow> worker \<Rightarrow> bool" where
  "link_ok lib tr (AtTimedOut u) = (Recv u \<in> set tr)"
| "link_ok lib tr (AtRead lr) = (Recv (pageURL lr) \<in> set tr)"
| "link_ok lib tr (AtParse lr h) =
     (Recv (pageURL lr) \<in> set tr \<and> LinkRead (pageURL lr) h \<in> set tr)"
| "link_ok lib tr (AtLock lr u) =
     (Recv (pageURL lr) \<in> set tr
      \<and> (\<exists>h hu. LinkRead (pageURL lr) h \<in> set tr \<and> url_Parse lib h = Inr hu
            \<and> u = url_ResolveReference lib (pageURL lr) hu))"
| "link_ok lib tr (AtSelect lr u) = (Recv (pageURL lr) \<in> set tr)"
| "link_ok lib tr (AtAdd lr) = (Recv (pageURL lr) \<in> set tr)"
| "link_ok lib tr w = True"

text \<open>The root, the configuration and the worker pool do not change; the configuration is valid.\<close>

definition inv_static :: "DomainCrawler \<Rightarrow> crawl \<Rightarrow> bool" where
  "inv_static c s =
     (root s = root c \<and> config s = config c
      \<and> url (siteMap s) = root c \<and> validator (siteMap s) = validator (siteMap c)
      \<and> int (length (workers s)) = MaxConcurrency (config c)
      \<and> Validate (config c) = None)"

text \<open>
  Sends and adds, receives and dones, the backlog and the counter: every send has its
  \<^verbatim>\<open>Add(1)\<close> but those of the workers at their add; every receive has its
  \<^verbatim>\<open>Done()\<close> but those of the busy workers; the backlog holds what was sent and not
  received; the counter is the adds less the dones.
\<close>

definition inv_acct :: "crawl \<Rightarrow> bool" where
  "inv_acct s =
     (num is_Send (trace s) = num is_WgAdd (trace s) + num at_add (workers s)
      \<and> num is_Recv (trace s) = num is_WgDone (trace s) + num busy (workers s)
      \<and> int (length (pendingURLS s)) = num is_Send (trace s) - num is_Recv (trace s)
      \<and> pendingURLSRemaining s = num is_WgAdd (trace s) - num is_WgDone (trace s))"

text \<open>
  The trace keeps the discipline \<open>sync_ok\<close>; \<^verbatim>\<open>Wait()\<close> has returned once
  \<^verbatim>\<open>Crawl\<close> is past it; the channel was closed once \<^verbatim>\<open>Crawl\<close> is past its
  \<^verbatim>\<open>close\<close>, and not before; a worker has left its loop only if the channel is closed.
\<close>

definition inv_sync :: "crawl \<Rightarrow> bool" where
  "inv_sync s =
     (sync_ok 0 False False (trace s)
      \<and> num is_WgWait (trace s) = (if main s = AtWait then 0 else 1)
      \<and> num is_CloseChan (trace s) = (if pendingURLS_closed s then 1 else 0)
      \<and> (pendingURLS_closed s \<longleftrightarrow> main s \<noteq> AtWait \<and> main s \<noteq> AtClose)
      \<and> (0 < num is_exited (workers s) \<longrightarrow> pendingURLS_closed s))"

text \<open>The only panic a crawl can run into is a send on the closed channel.\<close>

definition inv_panic :: "crawl \<Rightarrow> bool" where
  "inv_panic s = (panicked s = None \<or> panicked s = Some ''send on closed channel'')"

text \<open>The accessed-page counter counts the links read, modulo \<open>2 ^ 64\<close>.\<close>

definition inv_count :: "crawl \<Rightarrow> bool" where
  "inv_count s = (accessedPageCount s = word_of_int (num is_LinkRead (trace s)))"

text \<open>Every admitted string is linked.\<close>

definition inv_links :: "net_url \<Rightarrow> crawl \<Rightarrow> bool" where
  "inv_links lib s =
     (list_all (link_ok lib (trace s)) (workers s)
      \<and> (\<forall>k \<in> admitted (siteMap s). linked lib (trace s) k))"

text \<open>The backlog never holds more than its capacity.\<close>

definition inv_cap :: "crawl \<Rightarrow> bool" where
  "inv_cap s = (int (length (pendingURLS s)) \<le> MaxPendingURLS (config s))"

text \<open>
  With one worker, while it is busy with a page: every URL found new since the page was
  received was sent or dropped, or is at the \<^verbatim>\<open>select\<close> now; once a URL was dropped the
  backlog is full; and at the add the backlog is not empty.
\<close>

definition inv_page :: "crawl \<Rightarrow> bool" where
  "inv_page s =
     (0 < num busy (workers s) \<longrightarrow>
        num is_found (since_Recv (trace s))
          = num is_Send (since_Recv (trace s)) + num is_drop (since_Recv (trace s))
            + num at_select (workers s)
        \<and> (0 < num is_drop (since_Recv (trace s)) \<longrightarrow>
              int (length (pendingURLS s)) = MaxPendingURLS (config s))
        \<and> (0 < num at_add (workers s) \<longrightarrow> pendingURLS s \<noteq> []))"

text \<open>
  With one worker, once \<^verbatim>\<open>Wait()\<close> has returned the backlog is empty and the worker is
  not busy: nothing is left to do.
\<close>

definition inv_quiet :: "crawl \<Rightarrow> bool" where
  "inv_quiet s =
     (main s \<noteq> AtWait \<longrightarrow> pendingURLS s = [] \<and> num busy (workers s) = 0)"

definition inv_all :: "DomainCrawler \<Rightarrow> crawl \<Rightarrow> bool" where
  "inv_all c s =
     (inv_static c s \<and> inv_acct s \<and> inv_sync s \<and> inv_panic s \<and> inv_count s \<and> inv_cap s)"

text \<open>
  A crawl of the small site with one worker and a backlog of capacity 2, under a schedule
  that lets the worker run until nothing is left and then lets \<^verbatim>\<open>Crawl\<close> return.
\<close>

definition demo_config :: Config where
  "demo_config = NewConfig demo_site [SetMaxConcurrency 1, SetMaxPendingURLS 2]"

definition demo_crawler :: DomainCrawler where
  "demo_crawler =
     \<lparr>root = demo_root, config = demo_config, siteMap = NewSiteMap demo_root ValidateHosts,
      pendingURLS = [demo_root], pendingURLS_closed = False, pendingURLSRemaining = 1,
      accessedPageCount = 0, timedOut = False\<rparr>"

definition demo_schedule :: "actor list" where
  "demo_schedule = replicate 40 (Worker 0) @ [Main, Main, Main]"




text \<open>A server that is down, and one that serves pages without links.\<close>

definition offline :: client where
  "offline now u = Inl (Failure ''connection refused'')"

definition bare_site :: client where
  "bare_site now u = Inr (links_page [])"

text \<open>A site whose every page links to \<^verbatim>\<open>/\<close>, crawled by one worker.\<close>

definition loop_site :: client where
  "loop_site now u = Inr (links_page [''/''])"

definition loop_config :: Config where
  "loop_config = NewConfig loop_site [SetMaxConcurrency 1]"

definition loop_crawler :: DomainCrawler where
  "loop_crawler =
     \<lparr>root = demo_root, config = loop_config, siteMap = NewSiteMap demo_root ValidateHosts,
      pendingURLS = [demo_root], pendingURLS_closed = False, pendingURLSRemaining = 1,
      accessedPageCount = 0, timedOut = False\<rparr>"

text \<open>
  What \<^verbatim>\<open>realAllLinks\<close> does with a URL that \<^verbatim>\<open>appendURL\<close> has admitted: it hands it
  over, either to the backlog (a send) or to the log (a drop). The hand-overs of a trace
  are the strings of these URLs, in order.
\<close>

fun handed :: "net_url \<Rightarrow> action \<Rightarrow> string option" where
  "handed lib (Send u) = Some (url_String lib u)"
| "handed lib (Log ErrorLevel msg (zap_String key k # fs)) = Some k"
| "handed lib a = None"

definition handovers :: "net_url \<Rightarrow> action list \<Rightarrow> string list" where
  "handovers lib tr = List.map_filter (handed lib) tr"

text \<open>
  The site map is well formed; a worker at its \<^verbatim>\<open>select\<close> holds an admitted URL, and no
  two workers are there with the same string; after the seed, no string is handed over
  twice; a string handed over is admitted and no worker is at its \<^verbatim>\<open>select\<close> with it;
  every dropped string is among the hand-overs.
\<close>

definition inv_hand :: "net_url \<Rightarrow> crawl \<Rightarrow> bool" where
  "inv_hand lib s =
     (wf_SiteMap (siteMap s)
      \<and> (\<forall>k. k \<notin> admitted (siteMap s) \<longrightarrow> num (selecting lib k) (workers s) = 0)
      \<and> (\<forall>k. num (selecting lib k) (workers s) \<le> 1)
      \<and> trace s \<noteq> []
      \<and> distinct (handovers lib (tl (trace s)))
      \<and> (\<forall>k \<in> set (handovers lib (tl (trace s))).
            k \<in> admitted (siteMap s) \<and> num (selecting lib k) (workers s) = 0)
      \<and> dropped (trace s) \<subseteq> set (handovers lib (tl (trace s))))"

text \<open>
  The site of the examples with one worker and a backlog of capacity 1, as in
  \<^verbatim>\<open>TestDropTruncatedURLS\<close>: the root offers two links.
\<close>

definition truncated_config :: Config where
  "truncated_config = NewConfig demo_site [SetMaxConcurrency 1, SetMaxPendingURLS 1]"

definition truncated_crawler :: DomainCrawler where
  "truncated_crawler =
     \<lparr>root = demo_root, config = truncated_config, siteMap = NewSiteMap demo_root ValidateHosts,
      pendingURLS = [demo_root], pendingURLS_closed = False, pendingURLSRemaining = 1,
      accessedPageCount = 0, timedOut = False\<rparr>"

text \<open>
  A site whose root links to \<^verbatim>\<open>/a\<close> and \<^verbatim>\<open>/b\<close>, no other page has a link, crawled by
  two workers; and a schedule: worker 0 takes the root up to the send of \<^verbatim>\<open>/a\<close>, worker
  1 takes \<^verbatim>\<open>/a\<close> up to its \<^verbatim>\<open>Done()\<close>, \<^verbatim>\<open>Crawl\<close> returns from \<^verbatim>\<open>Wait()\<close> and closes
  the channel, worker 0 goes on.
\<close>

definition race_site :: client where
  "race_site now u =
     (if u = ''http://example.com/'' then Inr (links_page [''/a'', ''/b''])
      else Inr (links_page []))"

definition race_config :: Config where
  "race_config = NewConfig race_site [SetMaxConcurrency 2]"

definition race_crawler :: DomainCrawler where
  "race_crawler =
     \<lparr>root = demo_root, config = race_config, siteMap = NewSiteMap demo_root ValidateHosts,
      pendingURLS = [demo_root], pendingURLS_closed = False, pendingURLSRemaining = 1,
      accessedPageCount = 0, timedOut = False\<rparr>"

definition race_schedule :: "actor list" where
  "race_schedule =
     replicate 6 (Worker 0) @ replicate 4 (Worker 1) @ [Main, Main] @ replicate 5 (Worker 0)"

text \<open>
  The URLs sent to the backlog and the URLs received from it, in the order of the trace.
\<close>

fun sent :: "action \<Rightarrow> URL option" where
  "sent (Send u) = Some u"
| "sent a = None"

fun received :: "action \<Rightarrow> URL option" where
  "received (Recv u) = Some u"
| "received a = None"

definition sends :: "action list \<Rightarrow> URL list" where
  "sends tr = List.map_filter sent tr"

definition recvs :: "action list \<Rightarrow> URL list" where
  "recvs tr = List.map_filter received tr"

text \<open>
  The channel is a queue: what was sent is what was received followed by what waits, and
  the first send is the seed. A page is fetched, and links are read from it, only after it
  was received.
\<close>

definition inv_queue :: "net_url \<Rightarrow> DomainCrawler \<Rightarrow> crawl \<Rightarrow> bool" where
  "inv_queue lib c s =
     (sends (trace s) = recvs (trace s) @ pendingURLS s
      \<and> trace s \<noteq> [] \<and> hd (trace s) = Send (root c)
      \<and> (\<forall>k. Get k \<in> set (trace s) \<longrightarrow> (\<exists>u. Recv u \<in> set (trace s) \<and> url_String lib u = k))
      \<and> (\<forall>u h. LinkRead u h \<in> set (trace s) \<longrightarrow> Recv u \<in> set (trace s)))"

text \<open>
  A site whose root links to \<^verbatim>\<open>/a\<close> and then to itself, crawled by one worker with a
  backlog of capacity 1.
\<close>

definition backlink_site :: client where
  "backlink_site now u =
     (if u = ''http://example.com/'' then Inr (links_page [''/a'', ''/''])
      else Inr (links_page []))"

definition backlink_config :: Config where
  "backlink_config = NewConfig backlink_site [SetMaxConcurrency 1, SetMaxPendingURLS 1]"

definition backlink_crawler :: DomainCrawler where
  "backlink_crawler =
     \<lparr>root = demo_root, config = backlink_config, siteMap = NewSiteMap demo_root ValidateHosts,
      pendingURLS = [demo_root], pendingURLS_closed = False, pendingURLSRemaining = 1,
      accessedPageCount = 0, timedOut = False\<rparr>"

section \<open>The domain filter\<close>

text \<open>
  C6. Under the default policy \<^verbatim>\<open>ValidateHosts\<close>, a candidate whose host differs from
  the root's host is refused by \<^verbatim>\<open>appendURL\<close> whatever its scheme, path, query or
  fragment are, and the site map is left as it was.
\<close>

theorem appendURL_other_host:
  assumes "validator s = ValidateHosts"
    and "Host u \<noteq> Host (url s)"
  shows "appendURL lib s u = (False, s)"
  using assms by (simp add: appendURL_def ValidateHosts_def)

theorem appendURL_other_host_witness:
  "appendURL demo_lib (NewSiteMap demo_root ValidateHosts)
     (mkURL ''https'' ''other.org'' ''/'')
   = (False, NewSiteMap demo_root ValidateHosts)"
proof -
  have v: "validator (NewSiteMap demo_root ValidateHosts) = ValidateHosts"
    by (simp add: NewSiteMap_def)
  have h: "Host (mkURL ''https'' ''other.org'' ''/'')
      \<noteq> Host (url (NewSiteMap demo_root ValidateHosts))"
    by (simp add: NewSiteMap_def mkURL_def demo_root_def)
  show ?thesis by (rule appendURL_other_host [OF v h])
qed

section \<open>Rendering\<close>

lemma lookupURL_update:
  "lookupURL (AList.update k True m) k' = (k' = k \<or> lookupURL m k')"
  by (simp add: lookupURL_def update_conv')

lemma lookupURL_keys:
  "list_all snd m \<Longrightarrow> lookupURL m k = (k \<in> set (map fst m))"
proof (induction m)
  case Nil
  then show ?case by (simp add: lookupURL_def)
next
  case (Cons kv m)
  then show ?case by (cases kv) (auto simp: lookupURL_def)
qed

lemma admitted_keys: "wf_SiteMap s \<Longrightarrow> admitted s = set (map fst (siteURLS s))"
  by (auto simp: admitted_def wf_SiteMap_def lookupURL_keys)

lemma list_all_snd_update: "list_all snd m \<Longrightarrow> list_all snd (AList.update k True m)"
  by (induction m) auto

lemma wf_NewSiteMap: "wf_SiteMap (NewSiteMap u v)"
  by (simp add: wf_SiteMap_def NewSiteMap_def)

lemma wf_appendURL_Lock: "wf_SiteMap s \<Longrightarrow> wf_SiteMap (snd (appendURL_Lock lib s u))"
  by (simp add: wf_SiteMap_def appendURL_Lock_def Let_def distinct_update list_all_snd_update)

text \<open>The sequential \<^verbatim>\<open>appendURL\<close> is its two lock regions, one after the other.\<close>

lemma appendURL_split:
  "appendURL lib s u = (if appendURL_RLock lib s u then appendURL_Lock lib s u else (False, s))"
  by (simp add: appendURL_def appendURL_RLock_def appendURL_Lock_def Let_def)

lemma wf_appendURL: "wf_SiteMap s \<Longrightarrow> wf_SiteMap (snd (appendURL lib s u))"
  by (simp add: appendURL_split wf_appendURL_Lock)

lemma foldl_lines:
  "foldl (\<lambda>w path. w @ path @ [nl]) out paths = out @ concat (map (\<lambda>path. path @ [nl]) paths)"
  by (induction paths arbitrary: out) simp_all

lemma sort_keys: "distinct ks \<Longrightarrow> sort ks = sorted_list_of_set (set ks)"
  by (simp add: sorted_list_of_set_sort_remdups distinct_remdups_id)

text \<open>
  C8. For a site map as \<^verbatim>\<open>NewSiteMap\<close> and \<^verbatim>\<open>appendURL\<close> build it
  (\<open>wf_SiteMap\<close>, see \<open>wf_NewSiteMap\<close> and \<open>wf_appendURL\<close>), \<^verbatim>\<open>WriteMap\<close> appends to
  the writer the admitted strings, each once, in ascending lexicographic order, each followed
  by a newline, and leaves the site map as it was. (So the output ends in a newline unless
  nothing was admitted.)
\<close>

theorem WriteMap_sorted_lines:
  assumes "wf_SiteMap s"
  shows "WriteMap s out =
           (s, out @ concat (map (\<lambda>path. path @ [CHR 0x0A]) (sorted_list_of_set (admitted s))))
         \<and> finite (admitted s)"
proof -
  have d: "distinct (map fst (siteURLS s))" using assms by (simp add: wf_SiteMap_def)
  have a: "admitted s = set (map fst (siteURLS s))" using assms by (rule admitted_keys)
  show ?thesis
    unfolding WriteMap_def Let_def foldl_lines a sort_keys [OF d] by simp
qed

lemma demo_map_sorted:
  "sorted_list_of_set (admitted demo_map)
     = [''http://example.com/'', ''http://example.com/a'', ''http://example.com/b'']"
proof -
  have "wf_SiteMap demo_map" by (simp add: wf_SiteMap_def demo_map_def)
  then have "admitted demo_map = set (map fst (siteURLS demo_map))" by (rule admitted_keys)
  then show ?thesis by (simp add: demo_map_def sorted_list_of_set_sort_remdups)
qed

theorem WriteMap_sorted_lines_witness:
  "WriteMap demo_map [] =
     (demo_map,
      ''http://example.com/\<newline>http://example.com/a\<newline>http://example.com/b\<newline>'')"
proof -
  have w: "wf_SiteMap demo_map" by (simp add: wf_SiteMap_def demo_map_def)
  show ?thesis using WriteMap_sorted_lines [OF w, of "[]"] by (simp add: demo_map_sorted)
qed

section \<open>Idempotent admission\<close>

lemma count_update:
  "i < length xs \<Longrightarrow>
     length (filter P (xs[i := y])) + (if P (xs ! i) then 1 else 0)
       = length (filter P xs) + (if P y then 1 else 0)"
proof (induction xs arbitrary: i)
  case Nil
  then show ?case by simp
next
  case (Cons x xs)
  show ?case
  proof (cases i)
    case 0
    then show ?thesis by simp
  next
    case (Suc j)
    then have "j < length xs" using Cons.prems by simp
    from Cons.IH [OF this] Suc show ?thesis by simp
  qed
qed

lemma admitted_Lock:
  "admitted (snd (appendURL_Lock lib s u)) = insert (url_String lib u) (admitted s)"
  by (auto simp: admitted_def appendURL_Lock_def Let_def lookupURL_update)

lemma fst_Lock: "fst (appendURL_Lock lib s u) = (url_String lib u \<notin> admitted s)"
  by (simp add: admitted_def appendURL_Lock_def Let_def)

lemma RLock_iff:
  "appendURL_RLock lib s u = (validator s (url s) u \<and> url_String lib u \<notin> admitted s)"
  by (simp add: admitted_def appendURL_RLock_def)

lemma Lock_frame:
  "url (snd (appendURL_Lock lib s u)) = url s"
  "validator (snd (appendURL_Lock lib s u)) = validator s"
  by (simp_all add: appendURL_Lock_def Let_def)

text \<open>
  Run alone, \<^verbatim>\<open>appendURL\<close> answers true iff the candidate is in domain and its string
  was not admitted, and it admits every in-domain candidate.
\<close>

lemma appendURL_true_iff:
  "fst (appendURL lib s u) = (validator s (url s) u \<and> url_String lib u \<notin> admitted s)"
  by (simp add: appendURL_split RLock_iff fst_Lock)

lemma appendURL_admits:
  "admitted (snd (appendURL lib s u))
     = (if validator s (url s) u then insert (url_String lib u) (admitted s) else admitted s)"
  by (auto simp: appendURL_split RLock_iff admitted_Lock)

lemma in_domain_cong: "url s = url s' \<Longrightarrow> validator s = validator s' \<Longrightarrow> in_domain s u = in_domain s' u"
  by (simp add: in_domain_def)

lemma caller_ok_mono:
  "caller_ok lib s c \<Longrightarrow> url s' = url s \<Longrightarrow> validator s' = validator s \<Longrightarrow> admitted s \<subseteq> admitted s'
     \<Longrightarrow> caller_ok lib s' c"
  by (cases c) (auto simp: in_domain_def split: if_splits)

lemma list_all_update: "list_all P xs \<Longrightarrow> P y \<Longrightarrow> list_all P (xs[i := y])"
  by (induction xs arbitrary: i) (auto split: nat.splits)

lemma map_update_same: "i < length xs \<Longrightarrow> f y = f (xs ! i) \<Longrightarrow> map f (xs[i := y]) = map f xs"
  by (induction xs arbitrary: i) (auto split: nat.splits)

lemma candidate_step: "candidate (snd (caller_step lib s c)) = candidate c"
  by (cases c) (auto split: prod.splits)

lemma callers_inv_step:
  assumes "callers_inv lib k s0 us sc"
  shows "callers_inv lib k s0 us (callers_step lib i sc)"
proof (cases sc)
  case (Pair s cs)
  show ?thesis
  proof (cases "i < length cs")
    case False
    then show ?thesis using assms Pair by (simp add: callers_step_def)
  next
    case True
    from assms Pair have inv:
      "url s = url s0" "validator s = validator s0" "map candidate cs = us"
      "admitted s0 \<subseteq> admitted s"
      "admitted s \<subseteq> admitted s0 \<union> {url_String lib u | u. u \<in> set us \<and> in_domain s0 u}"
      "length (filter (granted lib k) cs) = (if k \<in> admitted s \<and> k \<notin> admitted s0 then 1 else 0)"
      "list_all (caller_ok lib s) cs"
      by (simp_all add: callers_inv_def)
    have ci: "caller_ok lib s (cs ! i)"
      using inv(7) True by (simp add: list_all_length)
    have cand: "candidate (cs ! i) \<in> set us"
      using inv(3) True by (metis length_map nth_map nth_mem)
    show ?thesis
    proof (cases "cs ! i")
      case (Calling u)
      show ?thesis
      proof (cases "appendURL_RLock lib s u")
        case rl: True
        then have st: "callers_step lib i sc = (s, cs[i := Waiting u])"
          using Pair True Calling by (simp add: callers_step_def)
        have "in_domain s u" using rl by (simp add: RLock_iff in_domain_def)
        then have "list_all (caller_ok lib s) (cs[i := Waiting u])"
          using inv(7) by (simp add: list_all_update)
        moreover have "length (filter (granted lib k) (cs[i := Waiting u])) = length (filter (granted lib k) cs)"
          using count_update [OF True, of "granted lib k" "Waiting u"] Calling by simp
        moreover have "map candidate (cs[i := Waiting u]) = us"
          using inv(3) True Calling by (simp add: map_update_same)
        ultimately show ?thesis using inv st by (simp add: callers_inv_def)
      next
        case rl: False
        then have st: "callers_step lib i sc = (s, cs[i := Returned u False])"
          using Pair True Calling by (simp add: callers_step_def)
        have "\<not> in_domain s u \<or> url_String lib u \<in> admitted s" using rl by (simp add: RLock_iff in_domain_def)
        then have "list_all (caller_ok lib s) (cs[i := Returned u False])"
          using inv(7) by (simp add: list_all_update)
        moreover have "length (filter (granted lib k) (cs[i := Returned u False])) = length (filter (granted lib k) cs)"
          using count_update [OF True, of "granted lib k" "Returned u False"] Calling by simp
        moreover have "map candidate (cs[i := Returned u False]) = us"
          using inv(3) True Calling by (simp add: map_update_same)
        ultimately show ?thesis using inv st by (simp add: callers_inv_def)
      qed
    next
      case (Waiting u)
      define s' where "s' = snd (appendURL_Lock lib s u)"
      define b where "b = fst (appendURL_Lock lib s u)"
      have st: "callers_step lib i sc = (s', cs[i := Returned u b])"
        using Pair True Waiting by (simp add: callers_step_def s'_def b_def split: prod.splits)
      have dom: "in_domain s u" using ci Waiting by simp
      have u_in: "u \<in> set us" using cand Waiting by simp
      have adm: "admitted s' = insert (url_String lib u) (admitted s)"
        by (simp add: s'_def admitted_Lock)
      have b: "b = (url_String lib u \<notin> admitted s)" by (simp add: b_def fst_Lock)
      have fr: "url s' = url s" "validator s' = validator s" by (simp_all add: s'_def Lock_frame)
      have sub: "admitted s \<subseteq> admitted s'" using adm by auto
      have "list_all (caller_ok lib s') cs"
        using inv(7) fr sub by (auto simp: list_all_iff intro: caller_ok_mono)
      moreover have "caller_ok lib s' (Returned u b)"
        using dom adm fr by (simp add: in_domain_def)
      ultimately have ok: "list_all (caller_ok lib s') (cs[i := Returned u b])"
        by (simp add: list_all_update)
      have cnt: "length (filter (granted lib k) (cs[i := Returned u b]))
          = length (filter (granted lib k) cs) + (if b \<and> url_String lib u = k then 1 else 0)"
        using count_update [OF True, of "granted lib k" "Returned u b"] Waiting by simp
      have cnt': "length (filter (granted lib k) (cs[i := Returned u b]))
          = (if k \<in> admitted s' \<and> k \<notin> admitted s0 then 1 else 0)"
        using cnt inv(6) inv(4) adm b by auto
      have cm: "map candidate (cs[i := Returned u b]) = us"
        using inv(3) True Waiting by (simp add: map_update_same)
      have up: "admitted s' \<subseteq> admitted s0 \<union> {url_String lib u | u. u \<in> set us \<and> in_domain s0 u}"
        using inv(5) adm u_in dom inv(1,2) by (auto simp: in_domain_def)
      show ?thesis
        using st fr inv(1,2,4) sub cm up cnt' ok by (auto simp: callers_inv_def)
    next
      case (Returned u b)
      then have "callers_step lib i sc = (s, cs[i := cs ! i])"
        using Pair True by (simp add: callers_step_def)
      then show ?thesis using assms Pair by simp
    qed
  qed
qed

lemma callers_inv_run:
  "callers_inv lib k s0 us sc \<Longrightarrow> callers_inv lib k s0 us (callers_run lib sched sc)"
  unfolding callers_run_def
  by (induction sched arbitrary: sc) (simp_all add: callers_inv_step)

lemma callers_inv_start: "callers_inv lib k s us (s, map Calling us)"
proof -
  have "length (filter (granted lib k) (map Calling us)) = 0"
    by (induction us) simp_all
  moreover have "list_all (caller_ok lib s) (map Calling us)"
    by (induction us) simp_all
  moreover have "map candidate (map Calling us) = us"
    by (induction us) simp_all
  ultimately show ?thesis by (auto simp: callers_inv_def)
qed

text \<open>A caller run alone through its two lock regions is the sequential \<^verbatim>\<open>appendURL\<close>.\<close>

lemma callers_sequential:
  "callers_run lib [0, 0] (s, [Calling u])
     = (snd (appendURL lib s u), [Returned u (fst (appendURL lib s u))])"
  by (cases "appendURL_RLock lib s u")
     (simp_all add: callers_run_def callers_step_def appendURL_split split: prod.splits)

text \<open>
  C1 (amended). Any number of calls of \<^verbatim>\<open>appendURL\<close> on one site map, interleaved at
  their lock regions in any order (one after the other included): once all have returned,
  the calls that returned true for a canonical string \<open>k\<close> are exactly one if \<open>k\<close> was
  not admitted before and some call had an in-domain candidate with that string, and none
  otherwise (so never more than one); and the admitted strings are those admitted before
  together with the strings of all in-domain candidates.
\<close>

theorem appendURL_grants_once:
  assumes run: "callers_run lib sched (s, map Calling us) = (s', cs)"
    and fin: "list_all has_returned cs"
  shows "length (filter (granted lib k) cs)
           = (if k \<notin> admitted s \<and> (\<exists>u. u \<in> set us \<and> validator s (url s) u \<and> url_String lib u = k)
              then 1 else 0)
         \<and> admitted s' = admitted s \<union> {url_String lib u | u. u \<in> set us \<and> validator s (url s) u}"
proof -
  have "callers_inv lib k s us (s', cs)"
    using callers_inv_run [OF callers_inv_start, of lib k s us sched] run by simp
  then have inv:
      "url s' = url s" "validator s' = validator s" "map candidate cs = us"
      "admitted s \<subseteq> admitted s'"
      "admitted s' \<subseteq> admitted s \<union> {url_String lib u | u. u \<in> set us \<and> in_domain s u}"
      "length (filter (granted lib k) cs) = (if k \<in> admitted s' \<and> k \<notin> admitted s then 1 else 0)"
      "list_all (caller_ok lib s') cs"
    by (simp_all add: callers_inv_def)
  have all: "url_String lib u \<in> admitted s'" if "u \<in> set us" "validator s (url s) u" for u
  proof -
    from that(1) inv(3) obtain c where c: "c \<in> set cs" "candidate c = u" by auto
    then have "has_returned c" "caller_ok lib s' c"
      using fin inv(7) by (auto simp: list_all_iff)
    then show ?thesis using c(2) that(2) inv(1,2)
      by (cases c) (auto simp: in_domain_def split: if_splits)
  qed
  have adm: "admitted s' = admitted s \<union> {url_String lib u | u. u \<in> set us \<and> validator s (url s) u}"
    using inv(4,5) all by (auto simp: in_domain_def)
  then have "length (filter (granted lib k) cs)
           = (if k \<notin> admitted s \<and> (\<exists>u. u \<in> set us \<and> validator s (url s) u \<and> url_String lib u = k)
              then 1 else 0)"
    using inv(6) by auto
  with adm show ?thesis by simp
qed

lemma demo_race:
  "callers_run demo_lib [0, 1, 0, 1] (NewSiteMap demo_root ValidateHosts, map Calling [demo_a, demo_a])
     = ((NewSiteMap demo_root ValidateHosts)\<lparr>siteURLS := [(''http://example.com/a'', True)]\<rparr>,
        [Returned demo_a True, Returned demo_a False])"
  by (simp add: callers_run_def callers_step_def appendURL_RLock_def appendURL_Lock_def
      NewSiteMap_def ValidateHosts_def demo_root_def demo_a_def mkURL_def demo_lib_def
      demo_String_def lookupURL_def)

theorem appendURL_grants_once_witness:
  "list_all has_returned
     (snd (callers_run demo_lib [0, 1, 0, 1]
        (NewSiteMap demo_root ValidateHosts, map Calling [demo_a, demo_a])))
   \<and> length (filter (granted demo_lib ''http://example.com/a'')
       (snd (callers_run demo_lib [0, 1, 0, 1]
          (NewSiteMap demo_root ValidateHosts, map Calling [demo_a, demo_a])))) = 1"
proof -
  have fin: "list_all has_returned [Returned demo_a True, Returned demo_a False]" by simp
  have "''http://example.com/a'' \<notin> admitted (NewSiteMap demo_root ValidateHosts)"
    by (simp add: admitted_def NewSiteMap_def lookupURL_def)
  moreover have "validator (NewSiteMap demo_root ValidateHosts) (url (NewSiteMap demo_root ValidateHosts)) demo_a
      \<and> url_String demo_lib demo_a = ''http://example.com/a''"
    by (simp add: NewSiteMap_def ValidateHosts_def demo_root_def demo_a_def mkURL_def demo_lib_def
        demo_String_def)
  ultimately have cnt:
    "length (filter (granted demo_lib ''http://example.com/a'')
       [Returned demo_a True, Returned demo_a False]) = 1"
    using appendURL_grants_once [OF demo_race fin, of "''http://example.com/a''"] by auto
  show ?thesis unfolding demo_race snd_conv using fin cnt by (rule conjI)
qed

text \<open>
  C1 as stated fails for a candidate out of domain: two calls, and none returns true.
\<close>

theorem appendURL_twice_out_of_domain_counterexample:
  "fst (appendURL demo_lib (NewSiteMap demo_root ValidateHosts) demo_other) = False
   \<and> fst (appendURL demo_lib
        (snd (appendURL demo_lib (NewSiteMap demo_root ValidateHosts) demo_other)) demo_other) = False"
  by (simp add: appendURL_def NewSiteMap_def ValidateHosts_def demo_root_def demo_other_def mkURL_def)

section \<open>Configuration validation\<close>







section \<open>Redirects\<close>

text \<open>
  C5 (amended). On the first \<^verbatim>\<open>Read\<close> of a link reader, when the \<^verbatim>\<open>GET\<close> answers with
  a status from 300 to 399, the body closes without error and \<^verbatim>\<open>resp.Location()\<close>
  returns a URL: \<^verbatim>\<open>Read\<close> yields the string of that URL, sets \<^verbatim>\<open>done\<close>, and has read
  no token of the body; every later \<^verbatim>\<open>Read\<close> returns \<^verbatim>\<open>io.EOF\<close>. (The caller,
  \<^verbatim>\<open>worker_step\<close> at \<^verbatim>\<open>AtParse\<close>, parses the yielded string and resolves it against
  the page URL like every other link.)
\<close>

theorem Read_redirect:
  assumes "\<not> done' u" and "doc u = None"
    and "client u now (url_String lib (pageURL u)) = Inr resp"
    and "300 \<le> StatusCode resp" and "StatusCode resp \<le> 399"
    and "BodyClose resp = None"
    and "Location resp = Inr locationURL"
  shows "Read lib now u =
           (Inr (url_String lib locationURL),
            u\<lparr>response := Some resp, doc := Some (Body resp), done' := True\<rparr>)
         \<and> Read lib later (snd (Read lib now u)) = (Inl EOF, snd (Read lib now u))"
proof -
  have "Read lib now u =
           (Inr (url_String lib locationURL),
            u\<lparr>response := Some resp, doc := Some (Body resp), done' := True\<rparr>)"
    using assms by (simp add: Read_def Let_def)
  then show ?thesis by (simp add: Read_def)
qed

text \<open>
  When closing the body fails, or the response has no usable \<^verbatim>\<open>Location\<close>,
  \<^verbatim>\<open>Read\<close> returns that error, yields nothing and does not set \<^verbatim>\<open>done\<close>.
\<close>

lemma Read_redirect_error:
  assumes "\<not> done' u" and "doc u = None"
    and "client u now (url_String lib (pageURL u)) = Inr resp"
    and "300 \<le> StatusCode resp" and "StatusCode resp \<le> 399"
    and "BodyClose resp = Some err \<or> (BodyClose resp = None \<and> Location resp = Inl err)"
  shows "Read lib now u = (Inl err, u\<lparr>response := Some resp, doc := Some (Body resp)\<rparr>)"
  using assms by (auto simp: Read_def Let_def)

theorem Read_redirect_witness:
  "fst (Read demo_lib 0 (NewLinkReader demo_root (\<lambda>now u. Inr (moved demo_hidden))))
     = Inr ''http://example.com/hidden''
   \<and> done' (snd (Read demo_lib 0 (NewLinkReader demo_root (\<lambda>now u. Inr (moved demo_hidden)))))
   \<and> doc (snd (Read demo_lib 0 (NewLinkReader demo_root (\<lambda>now u. Inr (moved demo_hidden)))))
     = Some [StartTagToken ''a'' [(''href'', ''/hidden'')]]
   \<and> fst (Read demo_lib 1 (snd (Read demo_lib 0
        (NewLinkReader demo_root (\<lambda>now u. Inr (moved demo_hidden)))))) = Inl EOF"
proof -
  let ?u = "NewLinkReader demo_root (\<lambda>now u. Inr (moved demo_hidden))"
  have a: "\<not> done' ?u" "doc ?u = None"
    "client ?u 0 (url_String demo_lib (pageURL ?u)) = Inr (moved demo_hidden)"
    "300 \<le> StatusCode (moved demo_hidden)" "StatusCode (moved demo_hidden) \<le> 399"
    "BodyClose (moved demo_hidden) = None" "Location (moved demo_hidden) = Inr demo_hidden"
    by (simp_all add: NewLinkReader_def moved_def)
  have s: "url_String demo_lib demo_hidden = ''http://example.com/hidden''"
    by (simp add: demo_lib_def demo_String_def demo_hidden_def mkURL_def)
  have b: "Body (moved demo_hidden) = [StartTagToken ''a'' [(''href'', ''/hidden'')]]"
    by (simp add: moved_def)
  from Read_redirect [OF a, of 1]
  have r1: "Read demo_lib 0 ?u =
           (Inr (url_String demo_lib demo_hidden),
            ?u\<lparr>response := Some (moved demo_hidden), doc := Some (Body (moved demo_hidden)),
               done' := True\<rparr>)"
    and r2: "Read demo_lib 1 (snd (Read demo_lib 0 ?u)) = (Inl EOF, snd (Read demo_lib 0 ?u))"
    by blast+
  show ?thesis unfolding r2 unfolding r1 by (simp add: s b)
qed

text \<open>
  C5 as stated fails for a 3xx response without a \<^verbatim>\<open>Location\<close> header (a 304): no link
  is yielded and the sequence is not marked exhausted.
\<close>

theorem Read_redirect_no_location_counterexample:
  "StatusCode not_modified = 304
   \<and> fst (Read demo_lib 0 (NewLinkReader demo_root (\<lambda>now u. Inr not_modified))) = Inl ErrNoLocation
   \<and> \<not> done' (snd (Read demo_lib 0 (NewLinkReader demo_root (\<lambda>now u. Inr not_modified))))"
  by (simp add: Read_def NewLinkReader_def not_modified_def Let_def)

section \<open>The invariants hold\<close>

text \<open>A property that holds at the start and is kept by every step holds after every run.\<close>

lemma run_induct:
  assumes "P s" and "\<And>s a. P s \<Longrightarrow> P (step lib a s)"
  shows "P (run lib sched s)"
  unfolding run_def using assms(1)
  by (induction sched arbitrary: s) (simp_all add: assms(2))

text \<open>The steps, by the goroutine that takes them.\<close>

lemma step_cases:
  assumes "blocked a s \<Longrightarrow> P s"
    and "\<And>i. a = Worker i \<Longrightarrow> \<not> blocked a s \<Longrightarrow> i < length (workers s) \<Longrightarrow> panicked s = None \<Longrightarrow>
           P ((worker_step lib i s (workers s ! i))\<lparr>clock := Suc (clock s)\<rparr>)"
    and "a = Timer \<Longrightarrow> \<not> blocked a s \<Longrightarrow> panicked s = None \<Longrightarrow>
           P (s\<lparr>timedOut := True, clock := Suc (clock s)\<rparr>)"
    and "a = Main \<Longrightarrow> \<not> blocked a s \<Longrightarrow> panicked s = None \<Longrightarrow>
           P ((main_step lib s (main s))\<lparr>clock := Suc (clock s)\<rparr>)"
  shows "P (step lib a s)"
proof (cases "blocked a s")
  case True
  then show ?thesis using assms(1) by (simp add: step_def)
next
  case False
  show ?thesis
  proof (cases a)
    case (Worker i)
    then show ?thesis using False assms(2) [of i] by (simp add: step_def)
  next
    case Timer
    then show ?thesis using False assms(3) by (simp add: step_def)
  next
    case Main
    then show ?thesis using False assms(4) by (simp add: step_def)
  qed
qed

lemma num_simps [simp]:
  "num P [] = 0"
  "num P (x # xs) = (if P x then 1 else 0) + num P xs"
  "num P (xs @ ys) = num P xs + num P ys"
  by (simp_all add: num_def)

lemma num_update [simp]:
  "i < length xs \<Longrightarrow>
     num P (xs[i := y]) = num P xs - (if P (xs ! i) then 1 else 0) + (if P y then 1 else 0)"
  using count_update [of i xs P y] by (simp add: num_def split: if_splits)

lemma num_nonneg [simp]: "0 \<le> num P xs"
  by (simp add: num_def)

lemma num_pos: "i < length xs \<Longrightarrow> P (xs ! i) \<Longrightarrow> 1 \<le> num P xs"
proof -
  assume "i < length xs" "P (xs ! i)"
  then have "xs ! i \<in> set (filter P xs)" by simp
  then have "0 < length (filter P xs)" by (metis length_pos_if_in_set)
  then show ?thesis by (simp add: num_def Suc_le_eq)
qed

lemma inv_acct_worker:
  assumes "inv_acct s" and i: "i < length (workers s)"
  shows "inv_acct (worker_step lib i s (workers s ! i))"
proof (cases "workers s ! i")
  case AtRange
  then show ?thesis using assms
    by (auto simp: inv_acct_def goto_def emit_def split: list.splits)
next
  case (AtTimedOut u)
  then show ?thesis using assms
    by (auto simp: inv_acct_def goto_def emit_def panic_def split: option.splits)
next
  case (AtRead lr)
  then show ?thesis using assms
    by (auto simp: inv_acct_def goto_def emit_def Let_def split: prod.splits sum.splits)
next
  case (AtParse lr h)
  then show ?thesis using assms
    by (auto simp: inv_acct_def goto_def emit_def Let_def split: sum.splits)
next
  case (AtLock lr u)
  then show ?thesis using assms
    by (auto simp: inv_acct_def goto_def emit_def split: prod.splits)
next
  case (AtSelect lr u)
  then show ?thesis using assms
    by (auto simp: inv_acct_def goto_def emit_def panic_def)
next
  case (AtAdd lr)
  then show ?thesis using assms
    by (auto simp: inv_acct_def goto_def emit_def)
next
  case AtDone
  then show ?thesis using assms
    by (auto simp: inv_acct_def goto_def emit_def panic_def)
next
  case Exited
  then show ?thesis using assms(1) by simp
qed

lemma inv_acct_step: "inv_acct s \<Longrightarrow> inv_acct (step lib a s)"
proof (induction rule: step_cases [where a = a and s = s and lib = lib])
  case 1
  then show ?case by simp
next
  case (2 i)
  then show ?case using inv_acct_worker [of s i lib] by (simp add: inv_acct_def)
next
  case 3
  then show ?case by (simp add: inv_acct_def)
next
  case 4
  then show ?case by (cases "main s") (auto simp: inv_acct_def emit_def panic_def)
qed

subsection \<open>Static facts\<close>

lemma start_static:
  "NewDomainCrawler r cfg = Inr c \<Longrightarrow> inv_static c (Crawl_start c)"
  by (auto simp: NewDomainCrawler_def inv_static_def Crawl_start_def NewSiteMap_def Validate_def
      split: option.splits if_splits)

lemma Lock_url: "url (snd (appendURL_Lock lib sm u)) = url sm"
  and Lock_validator: "validator (snd (appendURL_Lock lib sm u)) = validator sm"
  by (simp_all add: appendURL_Lock_def Let_def)

lemma inv_static_worker:
  assumes "inv_static c s" and i: "i < length (workers s)"
  shows "inv_static c (worker_step lib i s (workers s ! i))"
proof (cases "workers s ! i")
  case (AtRead lr)
  then show ?thesis using assms
    by (auto simp: inv_static_def goto_def emit_def Let_def split: prod.splits sum.splits)
next
  case (AtLock lr u)
  then show ?thesis using assms Lock_url [of lib "siteMap s" u] Lock_validator [of lib "siteMap s" u]
    by (auto simp: inv_static_def goto_def emit_def split: prod.splits)
qed (use assms in \<open>auto simp: inv_static_def goto_def emit_def panic_def Let_def
      split: list.splits option.splits sum.splits\<close>)

lemma inv_static_step: "inv_static c s \<Longrightarrow> inv_static c (step lib a s)"
proof (induction rule: step_cases [where a = a and s = s and lib = lib])
  case 1
  then show ?case by simp
next
  case (2 i)
  then show ?case using inv_static_worker [of c s i lib] by (simp add: inv_static_def)
next
  case 3
  then show ?case by (simp add: inv_static_def)
next
  case 4
  then show ?case by (cases "main s") (auto simp: inv_static_def emit_def panic_def)
qed

lemma start_acct: "NewDomainCrawler r cfg = Inr c \<Longrightarrow> inv_acct (Crawl_start c)"
  by (auto simp: NewDomainCrawler_def inv_acct_def Crawl_start_def num_def
      split: option.splits)

subsection \<open>The wait group and the close\<close>

lemma sync_ok_append:
  "sync_ok n w c (tr @ tr') =
     (sync_ok n w c tr
      \<and> sync_ok (n + num is_WgAdd tr - num is_WgDone tr) (w \<or> 0 < num is_WgWait tr)
          (c \<or> 0 < num is_CloseChan tr) tr')"
  by (induction n w c tr rule: sync_ok.induct) (simp_all add: algebra_simps add_pos_nonneg)

lemma start_sync: "NewDomainCrawler r cfg = Inr c \<Longrightarrow> inv_sync (Crawl_start c)"
  by (auto simp: NewDomainCrawler_def inv_sync_def Crawl_start_def num_def
      split: option.splits)

lemma inv_sync_worker:
  assumes "inv_sync s" and "inv_acct s" and i: "i < length (workers s)"
    and nb: "\<not> blocked (Worker i) s"
  shows "inv_sync (worker_step lib i s (workers s ! i))"
proof (cases "workers s ! i")
  case AtRange
  then show ?thesis using assms
    by (auto simp: inv_sync_def inv_acct_def sync_ok_append goto_def emit_def split: list.splits)
next
  case (AtTimedOut u)
  then show ?thesis using assms
    by (auto simp: inv_sync_def inv_acct_def sync_ok_append goto_def emit_def panic_def split: option.splits)
next
  case (AtRead lr)
  then show ?thesis using assms
    by (auto simp: inv_sync_def inv_acct_def sync_ok_append goto_def emit_def Let_def split: prod.splits sum.splits)
next
  case (AtParse lr h)
  then show ?thesis using assms
    by (auto simp: inv_sync_def inv_acct_def sync_ok_append goto_def emit_def Let_def split: sum.splits)
next
  case (AtLock lr u)
  then show ?thesis using assms
    by (auto simp: inv_sync_def inv_acct_def sync_ok_append goto_def emit_def split: prod.splits)
next
  case (AtSelect lr u)
  then show ?thesis using assms
    by (auto simp: inv_sync_def inv_acct_def sync_ok_append goto_def emit_def panic_def)
next
  case (AtAdd lr)
  then show ?thesis using assms
    by (auto simp: inv_sync_def inv_acct_def sync_ok_append goto_def emit_def)
next
  case AtDone
  then show ?thesis using assms
    by (auto simp: inv_sync_def inv_acct_def sync_ok_append goto_def emit_def panic_def)
next
  case Exited
  then show ?thesis using assms(1) by simp
qed

lemma inv_sync_clock [simp]: "inv_sync (s\<lparr>clock := n\<rparr>) = inv_sync s"
  by (simp add: inv_sync_def)

lemma inv_sync_step:
  assumes "inv_sync s" and "inv_acct s"
  shows "inv_sync (step lib a s)"
proof (induction rule: step_cases [where a = a and s = s and lib = lib])
  case 1
  then show ?case using assms by simp
next
  case (2 i)
  then show ?case using inv_sync_worker [of s i lib] assms by simp
next
  case 3
  then show ?case using assms by (auto simp: inv_sync_def)
next
  case 4
  then show ?case using assms
    by (cases "main s") (auto simp: inv_sync_def inv_acct_def sync_ok_append emit_def panic_def)
qed

subsection \<open>Panics\<close>

lemma Validate_None:
  assumes "Validate cfg = None"
  shows "0 < MaxConcurrency cfg" and "0 < MaxPendingURLS cfg" and "Client cfg \<noteq> None"
    and "DomainValidator cfg \<noteq> None"
  using assms by (auto simp: Validate_def Option.is_none_def split: if_splits)

lemma num_busy_split: "num busy ws = num owes ws + num at_add ws"
proof (induction ws)
  case Nil
  then show ?case by simp
next
  case (Cons w ws)
  then show ?case by (cases w) simp_all
qed

lemma num_pos_ex: "0 < num P xs \<Longrightarrow> \<exists>i < length xs. P (xs ! i)"
proof -
  assume "0 < num P xs"
  then have "filter P xs \<noteq> []" by (auto simp: num_def)
  then obtain x where "x \<in> set xs" "P x" by (auto simp: filter_empty_conv)
  then show ?thesis by (auto simp: in_set_conv_nth)
qed

text \<open>The counter is the length of the backlog plus the workers that hold a unit.\<close>

lemma counter_owes:
  "inv_acct s \<Longrightarrow>
     pendingURLSRemaining s = int (length (pendingURLS s)) + num owes (workers s)"
  using num_busy_split [of "workers s"] by (simp add: inv_acct_def)

lemma start_panic: "inv_panic (Crawl_start c)"
  by (simp add: inv_panic_def Crawl_start_def)

lemma inv_panic_clock [simp]: "inv_panic (s\<lparr>clock := n\<rparr>) = inv_panic s"
  by (simp add: inv_panic_def)

lemma inv_panic_worker:
  assumes "inv_panic s" and "inv_static c s" and "inv_acct s" and i: "i < length (workers s)"
  shows "inv_panic (worker_step lib i s (workers s ! i))"
proof (cases "workers s ! i")
  case (AtTimedOut u)
  have "Client (config s) \<noteq> None"
    using assms(2) Validate_None(3) [of "config c"] by (simp add: inv_static_def)
  then show ?thesis using assms(1) AtTimedOut
    by (auto simp: inv_panic_def goto_def emit_def panic_def)
next
  case AtDone
  then have "1 \<le> num owes (workers s)" using num_pos [OF i, of owes] by simp
  then have "0 < pendingURLSRemaining s" using counter_owes [OF assms(3)] by simp
  then show ?thesis using assms(1) AtDone
    by (auto simp: inv_panic_def goto_def emit_def panic_def)
next
  case (AtRead lr)
  then show ?thesis using assms(1)
    by (auto simp: inv_panic_def goto_def emit_def Let_def split: prod.splits sum.splits)
qed (use assms(1) in \<open>auto simp: inv_panic_def goto_def emit_def panic_def Let_def
      split: list.splits sum.splits prod.splits\<close>)

lemma inv_panic_step:
  assumes "inv_panic s" and "inv_static c s" and "inv_acct s" and "inv_sync s"
  shows "inv_panic (step lib a s)"
proof (induction rule: step_cases [where a = a and s = s and lib = lib])
  case 1
  then show ?case using assms by simp
next
  case (2 i)
  then show ?case using inv_panic_worker [of s c i lib] assms by simp
next
  case 3
  then show ?case using assms by (auto simp: inv_panic_def)
next
  case 4
  then show ?case using assms
    by (cases "main s") (auto simp: inv_panic_def inv_sync_def emit_def panic_def)
qed

subsection \<open>The accessed-page counter\<close>

lemma start_count: "NewDomainCrawler r cfg = Inr c \<Longrightarrow> inv_count (Crawl_start c)"
  by (auto simp: NewDomainCrawler_def inv_count_def Crawl_start_def split: option.splits)

lemma inv_count_clock [simp]: "inv_count (s\<lparr>clock := n\<rparr>) = inv_count s"
  by (simp add: inv_count_def)

lemma inv_count_worker:
  assumes "inv_count s"
  shows "inv_count (worker_step lib i s (workers s ! i))"
proof (cases "workers s ! i")
  case (AtRead lr)
  then show ?thesis using assms
    by (auto simp: inv_count_def goto_def emit_def Let_def split: prod.splits sum.splits)
qed (use assms in \<open>auto simp: inv_count_def goto_def emit_def panic_def Let_def
      split: list.splits sum.splits prod.splits option.splits\<close>)

lemma inv_count_step: "inv_count s \<Longrightarrow> inv_count (step lib a s)"
proof (induction rule: step_cases [where a = a and s = s and lib = lib])
  case 1
  then show ?case by simp
next
  case (2 i)
  then show ?case using inv_count_worker [of s lib i] by simp
next
  case 3
  then show ?case by (auto simp: inv_count_def)
next
  case 4
  then show ?case by (cases "main s") (auto simp: inv_count_def emit_def panic_def)
qed

subsection \<open>The capacity of the backlog\<close>

lemma start_cap: "NewDomainCrawler r cfg = Inr c \<Longrightarrow> inv_cap (Crawl_start c)"
  using Validate_None(2) [of cfg]
  by (auto simp: NewDomainCrawler_def inv_cap_def Crawl_start_def split: option.splits)

lemma inv_cap_clock [simp]: "inv_cap (s\<lparr>clock := n\<rparr>) = inv_cap s"
  by (simp add: inv_cap_def)

lemma inv_cap_worker:
  assumes "inv_cap s"
  shows "inv_cap (worker_step lib i s (workers s ! i))"
proof (cases "workers s ! i")
  case (AtRead lr)
  then show ?thesis using assms
    by (auto simp: inv_cap_def goto_def emit_def Let_def split: prod.splits sum.splits)
qed (use assms in \<open>auto simp: inv_cap_def goto_def emit_def panic_def Let_def
      split: list.splits sum.splits prod.splits option.splits\<close>)

lemma inv_cap_step: "inv_cap s \<Longrightarrow> inv_cap (step lib a s)"
proof (induction rule: step_cases [where a = a and s = s and lib = lib])
  case 1
  then show ?case by simp
next
  case (2 i)
  then show ?case using inv_cap_worker [of s lib i] by simp
next
  case 3
  then show ?case by (auto simp: inv_cap_def)
next
  case 4
  then show ?case by (cases "main s") (auto simp: inv_cap_def emit_def panic_def)
qed

subsection \<open>All of them, along a run\<close>

lemma inv_acct_clock [simp]: "inv_acct (s\<lparr>clock := n\<rparr>) = inv_acct s"
  by (simp add: inv_acct_def)

lemma inv_all_run:
  assumes "NewDomainCrawler r cfg = Inr c"
  shows "inv_all c (run lib sched (Crawl_start c))"
proof (rule run_induct)
  show "inv_all c (Crawl_start c)"
    using assms
    by (simp add: inv_all_def start_static start_acct start_sync start_panic start_count start_cap)
next
  fix s a
  assume "inv_all c s"
  then show "inv_all c (step lib a s)"
    using inv_panic_step [of s c lib a]
    by (simp add: inv_all_def inv_static_step inv_acct_step inv_sync_step
        inv_count_step inv_cap_step)
qed

subsection \<open>No deadlock\<close>

lemma progress:
  assumes "inv_static c s" and "inv_acct s" and "inv_sync s"
    and np: "panicked s = None" and nf: "Crawl_result s = None"
  shows "\<exists>a. \<not> blocked a s"
proof (cases "main s")
  case AtWait
  show ?thesis
  proof (cases "pendingURLSRemaining s = 0")
    case True
    then have "\<not> blocked Main s" using np AtWait by simp
    then show ?thesis ..
  next
    case False
    show ?thesis
    proof (cases "0 < num owes (workers s)")
      case True
      then obtain i where i: "i < length (workers s)" "owes (workers s ! i)"
        using num_pos_ex by blast
      then have "\<not> blocked (Worker i) s" using np
        by (cases "workers s ! i") simp_all
      then show ?thesis ..
    next
      case no: False
      then have "num owes (workers s) = 0" using num_nonneg [of owes "workers s"] by linarith
      then have q: "pendingURLS s \<noteq> []" using False counter_owes [OF assms(2)] by auto
      have len: "0 < length (workers s)"
        using assms(1) Validate_None(1) [of "config c"] by (auto simp: inv_static_def)
      have "\<not> pendingURLS_closed s" using assms(3) AtWait by (simp add: inv_sync_def)
      then have "num is_exited (workers s) = 0"
        using assms(3) num_nonneg [of is_exited "workers s"] by (auto simp: inv_sync_def)
      then have "\<not> is_exited (workers s ! 0)"
        using num_pos [OF len, of is_exited] by auto
      then have "\<not> blocked (Worker 0) s" using np q len
        by (cases "workers s ! 0") simp_all
      then show ?thesis ..
    qed
  qed
next
  case AtClose
  then have "\<not> blocked Main s" using np by simp
  then show ?thesis ..
next
  case AtLoad
  then have "\<not> blocked Main s" using np by simp
  then show ?thesis ..
next
  case (Finished r)
  then show ?thesis using nf by (cases r) (simp_all add: Crawl_result_def)
qed

lemma demo_new: "NewDomainCrawler demo_root demo_config = Inr demo_crawler"
  by (simp add: NewDomainCrawler_def demo_crawler_def demo_config_def Validate_def NewConfig_def
      Let_def SetMaxConcurrency_def SetMaxPendingURLS_def DefaultKeepAlive_def DefaultTimeout_def
      Option.is_none_def)

section \<open>Outstanding work\<close>




section \<open>The result of a crawl\<close>





text \<open>
  No link is read when the root cannot be fetched, and also when the root is served and has
  no links: both crawls end in the error.
\<close>

lemma unreachable_root_NoAccess:
  "(case fst (CrawlDomainWithURL demo_lib offline (replicate 4 (Worker 0) @ [Main, Main, Main])
          demo_root [SetMaxConcurrency 1]) of
      Some (Inl err) \<Rightarrow> err = NoAccess ''http://example.com/''
    | _ \<Rightarrow> False)"
  by code_simp

lemma linkless_root_NoAccess:
  "(case fst (CrawlDomainWithURL demo_lib bare_site (replicate 4 (Worker 0) @ [Main, Main, Main])
          demo_root [SetMaxConcurrency 1]) of
      Some (Inl err) \<Rightarrow> err = NoAccess ''http://example.com/''
    | _ \<Rightarrow> False)
   \<and> snd (CrawlDomainWithURL demo_lib bare_site (replicate 4 (Worker 0) @ [Main, Main, Main])
          demo_root [SetMaxConcurrency 1])
     = [Send demo_root, WgAdd, Recv demo_root,
        Log DebugLevel ''crawling page for links'' [zap_String ''url'' ''http://example.com/''],
        Get ''http://example.com/'', WgDone, WgWait, CloseChan]"
  by code_simp

section \<open>Where the admitted strings come from\<close>

lemma Read_pageURL: "pageURL (snd (Read lib now lr)) = pageURL lr"
  by (auto simp: Read_def scanLinks_def Let_def split: option.splits sum.splits prod.splits)

lemma link_ok_mono: "link_ok lib tr w \<Longrightarrow> set tr \<subseteq> set tr' \<Longrightarrow> link_ok lib tr' w"
  by (cases w) auto

lemma linked_mono: "linked lib tr k \<Longrightarrow> set tr \<subseteq> set tr' \<Longrightarrow> linked lib tr' k"
  unfolding linked_def by blast

lemma list_all_link_ok_mono:
  "list_all (link_ok lib tr) ws \<Longrightarrow> set tr \<subseteq> set tr' \<Longrightarrow> list_all (link_ok lib tr') ws"
  by (auto simp: list_all_iff intro: link_ok_mono)

lemma links_update:
  "list_all (link_ok lib tr) ws \<Longrightarrow>
     list_all (link_ok lib (tr @ as)) (ws[i := w]) = (i < length ws \<longrightarrow> link_ok lib (tr @ as) w)"
proof -
  assume a: "list_all (link_ok lib tr) ws"
  then have b: "list_all (link_ok lib (tr @ as)) ws"
    by (rule list_all_link_ok_mono) auto
  show ?thesis
  proof (cases "i < length ws")
    case True
    then have "w \<in> set (ws[i := w])" by (simp add: set_update_memI)
    then show ?thesis using b True
      by (auto simp: list_all_iff dest: set_update_subset_insert [THEN subsetD])
  next
    case False
    then show ?thesis using b by (simp add: list_update_beyond)
  qed
qed

lemma links_update0:
  "list_all (link_ok lib tr) ws \<Longrightarrow>
     list_all (link_ok lib tr) (ws[i := w]) = (i < length ws \<longrightarrow> link_ok lib tr w)"
  using links_update [of lib tr ws "[]" i w] by simp

lemma links_append:
  "list_all (link_ok lib tr) ws \<Longrightarrow> list_all (link_ok lib (tr @ as)) ws"
  by (rule list_all_link_ok_mono) auto

lemma linked_append: "linked lib tr k \<Longrightarrow> linked lib (tr @ as) k"
  by (rule linked_mono) auto

lemma start_links: "NewDomainCrawler r cfg = Inr c \<Longrightarrow> inv_links lib (Crawl_start c)"
  by (auto simp: NewDomainCrawler_def inv_links_def Crawl_start_def NewSiteMap_def admitted_def
      lookupURL_def list_all_iff split: option.splits)

lemma inv_links_clock [simp]: "inv_links lib (s\<lparr>clock := n\<rparr>) = inv_links lib s"
  by (simp add: inv_links_def)

lemma inv_links_worker:
  assumes inv: "inv_links lib s" and i: "i < length (workers s)"
  shows "inv_links lib (worker_step lib i s (workers s ! i))"
proof -
  have wi: "link_ok lib (trace s) (workers s ! i)"
    using inv i by (simp add: inv_links_def list_all_length)
  have ws: "list_all (link_ok lib (trace s)) (workers s)"
    and ad: "\<And>k. k \<in> admitted (siteMap s) \<Longrightarrow> linked lib (trace s) k"
    using inv by (simp_all add: inv_links_def)
  note upd = links_update [OF ws] links_update0 [OF ws] links_append [OF ws]
  show ?thesis
  proof (cases "workers s ! i")
    case AtRange
    then show ?thesis using ad
      by (auto simp: inv_links_def goto_def emit_def upd linked_append split: list.splits)
  next
    case (AtTimedOut u)
    then show ?thesis using ad wi
      by (auto simp: inv_links_def goto_def emit_def panic_def NewLinkReader_def upd ws
          linked_append split: option.splits)
  next
    case (AtRead lr)
    obtain res lr' where rd: "Read lib (clock s) lr = (res, lr')" by (cases "Read lib (clock s) lr")
    then have p: "pageURL lr' = pageURL lr" using Read_pageURL [of lib "clock s" lr] by simp
    have g: "list_all (link_ok lib (trace s @ [a])) (ws'[j := w]) = list_all (link_ok lib (trace s @ [a] @ [])) (ws'[j := w])" for a ws' j w
      by simp
    show ?thesis
    proof (cases res)
      case (Inl e)
      then show ?thesis using AtRead rd ad
        by (auto simp: inv_links_def goto_def emit_def Let_def upd linked_append)
    next
      case (Inr h)
      have u1: "list_all (link_ok lib (trace s @ [LinkRead (pageURL lr') h]))
              ((workers s)[i := AtParse lr' h])"
        using wi AtRead p i by (simp add: upd)
      have u2: "list_all (link_ok lib (trace s @ [Get (LinkReader_URL lib lr), LinkRead (pageURL lr') h]))
              ((workers s)[i := AtParse lr' h])"
        using wi AtRead p i by (simp add: upd)
      have l1: "linked lib (trace s @ as) k" if "k \<in> admitted (siteMap s)" for k as
        using ad [OF that] by (rule linked_append)
      show ?thesis using Inr AtRead rd u1 u2 l1
        by (simp add: inv_links_def goto_def emit_def Let_def)
    qed
  next
    case (AtParse lr h)
    then show ?thesis using ad wi
      by (auto simp: inv_links_def goto_def emit_def Let_def upd ws linked_append
          split: sum.splits)
  next
    case (AtLock lr u)
    have l: "linked lib (trace s) (url_String lib u)"
      using wi AtLock by (auto simp: linked_def)
    have a: "admitted (snd (appendURL_Lock lib (siteMap s) u))
        = insert (url_String lib u) (admitted (siteMap s))"
      by (rule admitted_Lock)
    show ?thesis using AtLock l a ad wi
      by (auto simp: inv_links_def goto_def emit_def upd ws linked_append split: prod.splits)
  next
    case (AtSelect lr u)
    then show ?thesis using ad wi
      by (auto simp: inv_links_def goto_def emit_def panic_def upd ws linked_append)
  next
    case (AtAdd lr)
    then show ?thesis using ad wi
      by (auto simp: inv_links_def goto_def emit_def upd linked_append)
  next
    case AtDone
    then show ?thesis using ad
      by (auto simp: inv_links_def goto_def emit_def panic_def upd ws linked_append)
  next
    case Exited
    then show ?thesis using inv by simp
  qed
qed

lemma inv_links_step: "inv_links lib s \<Longrightarrow> inv_links lib (step lib a s)"
proof (induction rule: step_cases [where a = a and s = s and lib = lib])
  case 1
  then show ?case by simp
next
  case (2 i)
  then show ?case using inv_links_worker [of lib s i] by simp
next
  case 3
  then show ?case by (auto simp: inv_links_def)
next
  case 4
  then show ?case
    by (cases "main s")
       (auto simp: inv_links_def emit_def panic_def links_append linked_append)
qed

lemma inv_links_run:
  "NewDomainCrawler r cfg = Inr c \<Longrightarrow> inv_links lib (run lib sched (Crawl_start c))"
  by (rule run_induct) (simp_all add: start_links inv_links_step)

subsection \<open>The site map of a crawl is well formed\<close>

lemma wf_worker:
  assumes "wf_SiteMap (siteMap s)"
  shows "wf_SiteMap (siteMap (worker_step lib i s (workers s ! i)))"
proof (cases "workers s ! i")
  case (AtLock lr u)
  then show ?thesis using wf_appendURL_Lock [OF assms, of lib u]
    by (auto simp: goto_def emit_def split: prod.splits)
qed (use assms in \<open>auto simp: goto_def emit_def panic_def Let_def
      split: list.splits sum.splits prod.splits option.splits\<close>)

lemma wf_step: "wf_SiteMap (siteMap s) \<Longrightarrow> wf_SiteMap (siteMap (step lib a s))"
proof (induction rule: step_cases [where a = a and s = s and lib = lib])
  case 1
  then show ?case by simp
next
  case (2 i)
  then show ?case using wf_worker [of s lib i] by simp
next
  case 3
  then show ?case by simp
next
  case 4
  then show ?case by (cases "main s") (auto simp: emit_def panic_def)
qed

lemma wf_run:
  "NewDomainCrawler r cfg = Inr c \<Longrightarrow> wf_SiteMap (siteMap (run lib sched (Crawl_start c)))"
proof (rule run_induct [where P = "\<lambda>s. wf_SiteMap (siteMap s)"])
  assume "NewDomainCrawler r cfg = Inr c"
  then show "wf_SiteMap (siteMap (Crawl_start c))"
    by (auto simp: NewDomainCrawler_def Crawl_start_def wf_NewSiteMap split: option.splits)
qed (rule wf_step)

text \<open>What \<^verbatim>\<open>WriteMap\<close> writes for a well-formed site map.\<close>

lemma WriteMap_lines:
  assumes "wf_SiteMap s"
  shows "WriteMap s out =
           (s, out @ concat (map (\<lambda>path. path @ [CHR 0x0A]) (sorted_list_of_set (admitted s))))"
proof -
  have d: "distinct (map fst (siteURLS s))" using assms by (simp add: wf_SiteMap_def)
  have a: "admitted s = set (map fst (siteURLS s))" using assms by (rule admitted_keys)
  show ?thesis
    unfolding WriteMap_def Let_def foldl_lines a sort_keys [OF d] by simp
qed

lemma loop_new: "NewDomainCrawler demo_root loop_config = Inr loop_crawler"
  by (simp add: NewDomainCrawler_def loop_crawler_def loop_config_def Validate_def NewConfig_def
      Let_def SetMaxConcurrency_def DefaultKeepAlive_def DefaultTimeout_def
      DefaultMaxPendingURLS_def Option.is_none_def)

section \<open>The root in the site map\<close>

text \<open>
  C10. \<^verbatim>\<open>NewDomainCrawler\<close> puts the root into the backlog and admits nothing: the site
  map starts empty. In every state of every crawl the root's string is admitted only if it
  is linked: a page received from the backlog has yielded an \<^verbatim>\<open>href\<close> that parses and
  resolves against that page to a URL with the root's string. \<^verbatim>\<open>WriteMap\<close> renders
  exactly the admitted strings, so a crawl in which no page links back to the root renders a
  site map without the root.
\<close>

theorem root_admitted_only_if_linked:
  assumes "NewDomainCrawler r cfg = Inr c" and "s = run lib sched (Crawl_start c)"
  shows "pendingURLS (Crawl_start c) = [r]
       \<and> admitted (siteMap (Crawl_start c)) = {}
       \<and> (url_String lib r \<in> admitted (siteMap s) \<longrightarrow> linked lib (trace s) (url_String lib r))
       \<and> WriteMap (siteMap s) out =
           (siteMap s,
            out @ concat (map (\<lambda>path. path @ [CHR 0x0A])
                    (sorted_list_of_set (admitted (siteMap s)))))"
proof -
  have "inv_links lib s" using assms by (simp add: inv_links_run)
  then have l: "url_String lib r \<in> admitted (siteMap s) \<longrightarrow> linked lib (trace s) (url_String lib r)"
    by (simp add: inv_links_def)
  have "wf_SiteMap (siteMap s)" using assms by (simp add: wf_run)
  then have w: "WriteMap (siteMap s) out =
           (siteMap s,
            out @ concat (map (\<lambda>path. path @ [CHR 0x0A])
                    (sorted_list_of_set (admitted (siteMap s)))))"
    by (rule WriteMap_lines)
  have "pendingURLS (Crawl_start c) = [r] \<and> admitted (siteMap (Crawl_start c)) = {}"
    using assms(1)
    by (auto simp: NewDomainCrawler_def Crawl_start_def NewSiteMap_def admitted_def lookupURL_def
        split: option.splits)
  with l w show ?thesis by simp
qed

theorem root_admitted_only_if_linked_witness:
  "url_String demo_lib demo_root
     \<in> admitted (siteMap (run demo_lib (replicate 5 (Worker 0)) (Crawl_start loop_crawler)))
   \<and> linked demo_lib (trace (run demo_lib (replicate 5 (Worker 0)) (Crawl_start loop_crawler)))
       (url_String demo_lib demo_root)"
proof -
  let ?s = "run demo_lib (replicate 5 (Worker 0)) (Crawl_start loop_crawler)"
  have "lookupURL (siteURLS (siteMap ?s)) (url_String demo_lib demo_root)"
    by code_simp
  then have a: "url_String demo_lib demo_root \<in> admitted (siteMap ?s)"
    by (simp add: admitted_def)
  from root_admitted_only_if_linked [OF loop_new refl, of demo_lib "replicate 5 (Worker 0)"] a
  show ?thesis by blast
qed

text \<open>
  The crawl of the small site, whose pages do not link to the root: the root is not in the
  site map that \<^verbatim>\<open>Crawl\<close> returns.
\<close>

lemma root_missing_from_site_map:
  "map fst (siteURLS (siteMap (run demo_lib demo_schedule (Crawl_start demo_crawler))))
     = [''http://example.com/a'', ''http://example.com/b'', ''http://example.com/c'',
        ''http://example.com/d'', ''http://example.com/e'']
   \<and> (case main (run demo_lib demo_schedule (Crawl_start demo_crawler)) of
        Finished None \<Rightarrow> True | _ \<Rightarrow> False)
   \<and> url_String demo_lib demo_root = ''http://example.com/''"
  by code_simp

section \<open>Dropped URLs\<close>

lemma handovers_simps [simp]:
  "handovers lib [] = []"
  "handovers lib (a # tr) = (case handed lib a of Some k \<Rightarrow> k # handovers lib tr | None \<Rightarrow> handovers lib tr)"
  "handovers lib (tr @ tr') = handovers lib tr @ handovers lib tr'"
  by (auto simp: handovers_def List.map_filter_def split: option.splits)

lemma dropped_simps [simp]:
  "dropped [] = {}"
  "dropped (a # tr) = (case drop_page a of Some k \<Rightarrow> insert k (dropped tr) | None \<Rightarrow> dropped tr)"
  "dropped (tr @ tr') = dropped tr \<union> dropped tr'"
  by (auto simp: dropped_def List.map_filter_def split: option.splits)

lemma drop_page_handed: "drop_page a = Some k \<Longrightarrow> handed lib a = Some k"
  by (induction a rule: drop_page.induct) simp_all

lemma dropped_handovers: "dropped tr \<subseteq> set (handovers lib tr)"
proof (induction tr)
  case Nil
  then show ?case by simp
next
  case (Cons a tr)
  then show ?case using drop_page_handed [of a _ lib]
    by (cases "drop_page a") (auto split: option.splits)
qed

lemma dropped_tl: "dropped tr \<subseteq> set (handovers lib (tl tr)) \<union> (case tr of a # _ \<Rightarrow> dropped [a] | [] \<Rightarrow> {})"
  using dropped_handovers [of "tl tr" lib] by (cases tr) (auto split: option.splits)

lemma start_hand: "NewDomainCrawler r cfg = Inr c \<Longrightarrow> inv_hand lib (Crawl_start c)"
  by (auto simp: NewDomainCrawler_def inv_hand_def Crawl_start_def wf_NewSiteMap num_def
      filter_empty_conv split: option.splits)

lemma inv_hand_clock [simp]: "inv_hand lib (s\<lparr>clock := n\<rparr>) = inv_hand lib s"
  by (simp add: inv_hand_def)

lemma inv_hand_worker:
  assumes inv: "inv_hand lib s" and i: "i < length (workers s)"
  shows "inv_hand lib (worker_step lib i s (workers s ! i))"
proof -
  have wf: "wf_SiteMap (siteMap s)"
    and k1: "\<And>k. k \<notin> admitted (siteMap s) \<Longrightarrow> num (selecting lib k) (workers s) = 0"
    and k2: "\<And>k. num (selecting lib k) (workers s) \<le> 1"
    and ne: "trace s \<noteq> []"
    and k4: "distinct (handovers lib (tl (trace s)))"
    and k3: "\<And>k. k \<in> set (handovers lib (tl (trace s))) \<Longrightarrow>
               k \<in> admitted (siteMap s) \<and> num (selecting lib k) (workers s) = 0"
    and k5: "dropped (trace s) \<subseteq> set (handovers lib (tl (trace s)))"
    using inv by (simp_all add: inv_hand_def)
  have wf': "wf_SiteMap (siteMap (worker_step lib i s (workers s ! i)))"
    using wf by (rule wf_worker)
  show ?thesis
  proof (cases "workers s ! i")
    case AtRange
    then show ?thesis using inv i
      by (auto simp: inv_hand_def goto_def emit_def tl_append2 split: list.splits)
  next
    case (AtTimedOut u)
    then show ?thesis using inv i
      by (auto simp: inv_hand_def goto_def emit_def panic_def tl_append2 split: option.splits)
  next
    case (AtRead lr)
    then show ?thesis using inv i
      by (auto simp: inv_hand_def goto_def emit_def Let_def tl_append2
          split: prod.splits sum.splits)
  next
    case (AtParse lr h)
    then show ?thesis using inv i
      by (auto simp: inv_hand_def goto_def emit_def Let_def tl_append2 split: sum.splits)
  next
    case (AtLock lr u)
    define ku where "ku = url_String lib u"
    obtain b sm' where L: "appendURL_Lock lib (siteMap s) u = (b, sm')"
      by (cases "appendURL_Lock lib (siteMap s) u")
    have a: "admitted sm' = insert ku (admitted (siteMap s))"
      using admitted_Lock [of lib "siteMap s" u] L by (simp add: ku_def)
    have f: "b = (ku \<notin> admitted (siteMap s))"
      using fst_Lock [of lib "siteMap s" u] L by (simp add: ku_def)
    have w: "wf_SiteMap sm'" using wf_appendURL_Lock [OF wf, of lib u] L by simp
    show ?thesis
    proof (cases "ku \<in> admitted (siteMap s)")
      case True
      then have st: "worker_step lib i s (workers s ! i) = goto i (AtRead lr) (s\<lparr>siteMap := sm'\<rparr>)"
        using AtLock f L by simp
      have "admitted sm' = admitted (siteMap s)" using a True by auto
      then show ?thesis unfolding st using inv i AtLock w
        by (auto simp: inv_hand_def goto_def)
    next
      case False
      then have st: "worker_step lib i s (workers s ! i)
          = emit [Log DebugLevel ''found new page'' [zap_String ''page'' ku]]
              (goto i (AtSelect lr u) (s\<lparr>siteMap := sm'\<rparr>))"
        using AtLock f L by (simp add: ku_def)
      have z: "num (selecting lib ku) (workers s) = 0" using k1 False by simp
      have c1: "num (selecting lib k) ((workers s)[i := AtSelect lr u]) = 0" if "k \<notin> admitted sm'" for k
        using that a k1 [of k] i AtLock by (auto simp: ku_def)
      have c2: "num (selecting lib k) ((workers s)[i := AtSelect lr u]) \<le> 1" for k
        using k2 [of k] z i AtLock by (auto simp: ku_def)
      have c3: "k \<in> admitted sm' \<and> num (selecting lib k) ((workers s)[i := AtSelect lr u]) = 0"
        if "k \<in> set (handovers lib (tl (trace s)))" for k
        using k3 [OF that] False a i AtLock by (auto simp: ku_def)
      show ?thesis unfolding st using c1 c2 c3 k4 k5 w ne
        by (simp add: inv_hand_def goto_def emit_def tl_append2)
    qed
  next
    case (AtSelect lr u)
    define ku where "ku = url_String lib u"
    have one: "1 \<le> num (selecting lib ku) (workers s)"
      using num_pos [OF i, of "selecting lib ku"] AtSelect by (simp add: ku_def)
    then have adm: "ku \<in> admitted (siteMap s)" using k1 [of ku] by auto
    have nd: "ku \<notin> set (handovers lib (tl (trace s)))" using k3 [of ku] one by auto
    have eq1: "num (selecting lib ku) (workers s) = 1" using one k2 [of ku] by simp
    have c1: "num (selecting lib k) ((workers s)[i := w]) = 0"
      if "k \<notin> admitted (siteMap s)" "\<not> selecting lib k w" for k w
      using that k1 [of k] i AtSelect adm by (auto simp: ku_def)
    have c2: "num (selecting lib k) ((workers s)[i := w]) \<le> 1" if "\<not> selecting lib k w" for k w
      using that k2 [of k] i AtSelect num_nonneg [of "selecting lib k" "workers s"] by auto
    have c3: "num (selecting lib k) ((workers s)[i := w]) = 0"
      if "k \<in> set (handovers lib (tl (trace s))) \<or> k = ku" "\<not> selecting lib k w" for k w
      using that k3 [of k] eq1 i AtSelect by (auto simp: ku_def)
    show ?thesis
    proof (cases "pendingURLS_closed s")
      case True
      then show ?thesis using AtSelect inv by (simp add: panic_def inv_hand_def)
    next
      case notclosed: False
      show ?thesis
      proof (cases "int (length (pendingURLS s)) < MaxPendingURLS (config s)")
        case True
        then show ?thesis using AtSelect notclosed wf k3 k4 k5 nd adm c1 c2 c3 ne
          by (auto simp: inv_hand_def goto_def emit_def tl_append2 ku_def)
      next
        case False
        then show ?thesis using AtSelect notclosed wf k3 k4 k5 nd adm c1 c2 c3 ne
          by (auto simp: inv_hand_def goto_def emit_def tl_append2 ku_def)
      qed
    qed
  next
    case (AtAdd lr)
    then show ?thesis using inv i
      by (auto simp: inv_hand_def goto_def emit_def tl_append2)
  next
    case AtDone
    then show ?thesis using inv i
      by (auto simp: inv_hand_def goto_def emit_def panic_def tl_append2)
  next
    case Exited
    then show ?thesis using inv by simp
  qed
qed

lemma inv_hand_step: "inv_hand lib s \<Longrightarrow> inv_hand lib (step lib a s)"
proof (induction rule: step_cases [where a = a and s = s and lib = lib])
  case 1
  then show ?case by simp
next
  case (2 i)
  then show ?case using inv_hand_worker [of lib s i] by simp
next
  case 3
  then show ?case by (auto simp: inv_hand_def)
next
  case 4
  then show ?case
    by (cases "main s") (auto simp: inv_hand_def emit_def panic_def tl_append2)
qed

lemma inv_hand_run:
  "NewDomainCrawler r cfg = Inr c \<Longrightarrow> inv_hand lib (run lib sched (Crawl_start c))"
  by (rule run_induct) (simp_all add: start_hand inv_hand_step)

lemma WriteMap_crawl:
  assumes "NewDomainCrawler r cfg = Inr c" and "s = run lib sched (Crawl_start c)"
  shows "WriteMap (siteMap s) out =
           (siteMap s,
            out @ concat (map (\<lambda>path. path @ [CHR 0x0A])
                    (sorted_list_of_set (admitted (siteMap s)))))"
  using assms by (simp add: wf_run WriteMap_lines)

section \<open>The backlog is a queue\<close>

lemma sends_simps [simp]:
  "sends [] = []"
  "sends (a # tr) = (case sent a of Some u \<Rightarrow> u # sends tr | None \<Rightarrow> sends tr)"
  "sends (tr @ tr') = sends tr @ sends tr'"
  by (auto simp: sends_def List.map_filter_def split: option.splits)

lemma recvs_simps [simp]:
  "recvs [] = []"
  "recvs (a # tr) = (case received a of Some u \<Rightarrow> u # recvs tr | None \<Rightarrow> recvs tr)"
  "recvs (tr @ tr') = recvs tr @ recvs tr'"
  by (auto simp: recvs_def List.map_filter_def split: option.splits)

lemma set_sends: "u \<in> set (sends tr) \<longleftrightarrow> Send u \<in> set tr"
proof (induction tr)
  case Nil
  then show ?case by simp
next
  case (Cons a tr)
  then show ?case by (cases a) auto
qed

lemma set_recvs: "u \<in> set (recvs tr) \<longleftrightarrow> Recv u \<in> set tr"
proof (induction tr)
  case Nil
  then show ?case by simp
next
  case (Cons a tr)
  then show ?case by (cases a) auto
qed

lemma start_queue:
  "NewDomainCrawler r cfg = Inr c \<Longrightarrow> inv_queue lib c (Crawl_start c)"
  by (auto simp: NewDomainCrawler_def inv_queue_def Crawl_start_def split: option.splits)

lemma inv_queue_clock [simp]: "inv_queue lib c (s\<lparr>clock := n\<rparr>) = inv_queue lib c s"
  by (simp add: inv_queue_def)

lemma inv_queue_worker:
  assumes inv: "inv_queue lib c s" and wi: "link_ok lib (trace s) (workers s ! i)"
  shows "inv_queue lib c (worker_step lib i s (workers s ! i))"
proof (cases "workers s ! i")
  case AtRange
  then show ?thesis using inv
    by (auto simp: inv_queue_def goto_def emit_def split: list.splits)
next
  case (AtTimedOut u)
  then show ?thesis using inv
    by (auto simp: inv_queue_def goto_def emit_def panic_def split: option.splits)
next
  case (AtRead lr)
  have r: "Recv (pageURL lr) \<in> set (trace s)" using wi AtRead by simp
  obtain res lr' where R: "Read lib (clock s) lr = (res, lr')"
    by (cases "Read lib (clock s) lr")
  have p: "pageURL lr' = pageURL lr" using Read_pageURL [of lib "clock s" lr] R by simp
  show ?thesis using inv AtRead R r p
    by (cases res)
      (auto simp: inv_queue_def goto_def emit_def Let_def LinkReader_URL_def)
next
  case (AtParse lr h)
  then show ?thesis using inv
    by (auto simp: inv_queue_def goto_def emit_def Let_def split: sum.splits)
next
  case (AtLock lr u)
  then show ?thesis using inv
    by (auto simp: inv_queue_def goto_def emit_def split: prod.splits)
next
  case (AtSelect lr u)
  then show ?thesis using inv
    by (auto simp: inv_queue_def goto_def emit_def panic_def)
next
  case (AtAdd lr)
  then show ?thesis using inv by (auto simp: inv_queue_def goto_def emit_def)
next
  case AtDone
  then show ?thesis using inv by (auto simp: inv_queue_def goto_def emit_def panic_def)
next
  case Exited
  then show ?thesis using inv by simp
qed

lemma inv_queue_step:
  assumes "inv_queue lib c s" and "inv_links lib s"
  shows "inv_queue lib c (step lib a s)"
proof (induction rule: step_cases [where a = a and s = s and lib = lib])
  case 1
  then show ?case using assms by simp
next
  case (2 i)
  have "link_ok lib (trace s) (workers s ! i)"
    using assms(2) 2 by (simp add: inv_links_def list_all_length)
  then show ?case using inv_queue_worker [OF assms(1), of i] by simp
next
  case 3
  then show ?case using assms by (auto simp: inv_queue_def)
next
  case 4
  then show ?case using assms
    by (cases "main s") (auto simp: inv_queue_def emit_def panic_def)
qed

lemma inv_queue_run:
  assumes "NewDomainCrawler r cfg = Inr c"
  shows "inv_queue lib c (run lib sched (Crawl_start c))"
proof -
  have "inv_links lib (run lib sched (Crawl_start c))
      \<and> inv_queue lib c (run lib sched (Crawl_start c))"
  proof (rule run_induct)
    show "inv_links lib (Crawl_start c) \<and> inv_queue lib c (Crawl_start c)"
      using assms by (simp add: start_links start_queue)
  next
    fix s a
    assume "inv_links lib s \<and> inv_queue lib c s"
    then show "inv_links lib (step lib a s) \<and> inv_queue lib c (step lib a s)"
      by (simp add: inv_links_step inv_queue_step)
  qed
  then show ?thesis by simp
qed

subsection \<open>A dropped string is not sent\<close>

lemma Send_handovers: "Send u \<in> set tr \<Longrightarrow> url_String lib u \<in> set (handovers lib tr)"
proof (induction tr)
  case Nil
  then show ?case by simp
next
  case (Cons a tr)
  then show ?case by (cases "handed lib a") auto
qed

lemma dropped_not_sent:
  "distinct (handovers lib tr) \<Longrightarrow> k \<in> dropped tr \<Longrightarrow> Send u \<in> set tr \<Longrightarrow>
     url_String lib u \<noteq> k"
proof (induction tr)
  case Nil
  then show ?case by simp
next
  case (Cons a tr)
  show ?case
  proof (cases "handed lib a")
    case None
    then have "drop_page a = None" using drop_page_handed [of a _ lib] by (cases "drop_page a") auto
    moreover have "a \<noteq> Send u" using None by auto
    ultimately show ?thesis using Cons None by simp
  next
    case (Some k')
    then have d: "distinct (handovers lib tr)" and n: "k' \<notin> set (handovers lib tr)"
      using Cons.prems(1) by simp_all
    show ?thesis
    proof (cases "a = Send u")
      case True
      then have k': "k' = url_String lib u" using Some by simp
      have "drop_page a = None" using True by simp
      then have "k \<in> dropped tr" using Cons.prems(2) by simp
      then have "k \<in> set (handovers lib tr)" using dropped_handovers [of tr lib] by auto
      then show ?thesis using n k' by auto
    next
      case False
      then have in_tl: "Send u \<in> set tr" using Cons.prems(3) by simp
      show ?thesis
      proof (cases "k \<in> dropped tr")
        case True
        then show ?thesis using Cons.IH d in_tl by simp
      next
        case False
        then have "drop_page a = Some k" using Cons.prems(2) by (cases "drop_page a") auto
        then have "k' = k" using drop_page_handed [of a k lib] Some by simp
        then show ?thesis using n Send_handovers [OF in_tl, of lib] by auto
      qed
    qed
  qed
qed


lemma dropped_crawl:
  assumes new: "NewDomainCrawler r cfg = Inr c" and s: "s = run lib sched (Crawl_start c)"
    and k: "k \<in> dropped (trace s)"
  shows "\<forall>u. Send u \<in> set (tl (trace s)) \<longrightarrow> url_String lib u \<noteq> k"
    and "int (length (filter (\<lambda>u. url_String lib u = k) (recvs (trace s))))
           \<le> (if url_String lib (root c) = k then 1 else 0)"
    and "Get k \<in> set (trace s) \<longrightarrow> url_String lib (root c) = k"
    and "\<forall>u h. LinkRead u h \<in> set (trace s) \<and> url_String lib u = k \<longrightarrow> u = root c"
proof -
  have hand: "inv_hand lib s" using new s by (simp add: inv_hand_run)
  have queue: "inv_queue lib c s" using new s by (simp add: inv_queue_run)
  have d: "distinct (handovers lib (tl (trace s)))"
    and sub: "dropped (trace s) \<subseteq> set (handovers lib (tl (trace s)))"
    using hand by (simp_all add: inv_hand_def)
  have tr: "trace s = Send (root c) # tl (trace s)"
    using queue by (cases "trace s") (simp_all add: inv_queue_def)
  have fifo: "sends (trace s) = recvs (trace s) @ pendingURLS s"
    using queue by (simp add: inv_queue_def)
  have "dropped (trace s) = dropped (tl (trace s))"
    by (subst tr) simp
  then have k': "k \<in> dropped (tl (trace s))" using k by simp
  show a: "\<forall>u. Send u \<in> set (tl (trace s)) \<longrightarrow> url_String lib u \<noteq> k"
    using dropped_not_sent [OF d k'] by blast
  then have none: "filter (\<lambda>u. url_String lib u = k) (sends (tl (trace s))) = []"
    by (auto simp: filter_empty_conv set_sends)
  have "sends (trace s) = root c # sends (tl (trace s))"
    by (subst tr) simp
  then have eq: "recvs (trace s) @ pendingURLS s = root c # sends (tl (trace s))"
    using fifo by simp
  have "filter (\<lambda>u. url_String lib u = k) (recvs (trace s) @ pendingURLS s)
      = filter (\<lambda>u. url_String lib u = k) [root c]"
    unfolding eq using none by simp
  then have f: "filter (\<lambda>u. url_String lib u = k) (recvs (trace s))
        @ filter (\<lambda>u. url_String lib u = k) (pendingURLS s)
      = (if url_String lib (root c) = k then [root c] else [])"
    by simp
  have "length (filter (\<lambda>u. url_String lib u = k) (recvs (trace s)))
      \<le> length (filter (\<lambda>u. url_String lib u = k) (recvs (trace s))
            @ filter (\<lambda>u. url_String lib u = k) (pendingURLS s))"
    by simp
  then show "int (length (filter (\<lambda>u. url_String lib u = k) (recvs (trace s))))
           \<le> (if url_String lib (root c) = k then 1 else 0)"
    unfolding f by (simp split: if_splits)
  have rc: "u = root c" if "Recv u \<in> set (trace s)" "url_String lib u = k" for u
  proof -
    have "u \<in> set (filter (\<lambda>u. url_String lib u = k) (recvs (trace s)))"
      using that by (simp add: set_recvs)
    then have "u \<in> set (if url_String lib (root c) = k then [root c] else [])"
      using f [symmetric] by simp
    then show ?thesis by (simp split: if_splits)
  qed
  show "Get k \<in> set (trace s) \<longrightarrow> url_String lib (root c) = k"
  proof
    assume "Get k \<in> set (trace s)"
    then obtain u where "Recv u \<in> set (trace s)" "url_String lib u = k"
      using queue unfolding inv_queue_def by blast
    then show "url_String lib (root c) = k" using rc by blast
  qed
  show "\<forall>u h. LinkRead u h \<in> set (trace s) \<and> url_String lib u = k \<longrightarrow> u = root c"
  proof (intro allI impI)
    fix u h
    assume "LinkRead u h \<in> set (trace s) \<and> url_String lib u = k"
    moreover from this have "Recv u \<in> set (trace s)"
      using queue unfolding inv_queue_def by blast
    ultimately show "u = root c" using rc by blast
  qed
qed

lemma backlink_new: "NewDomainCrawler demo_root backlink_config = Inr backlink_crawler"
  by (simp add: NewDomainCrawler_def backlink_crawler_def backlink_config_def Validate_def
      NewConfig_def Let_def SetMaxConcurrency_def SetMaxPendingURLS_def DefaultKeepAlive_def
      DefaultTimeout_def Option.is_none_def)

text \<open>
  C9 (amended). In every state of every crawl: a worker that is about to attempt the push
  (at its \<^verbatim>\<open>select\<close>) holds a URL that is admitted already; every string that was dropped
  at a full backlog is admitted, now and in every later state, and \<^verbatim>\<open>WriteMap\<close> renders
  exactly the admitted strings, the dropped ones among them; the strings handed over after
  the seed, sent or dropped, are pairwise distinct. The first send of the trace is the
  seed, and the backlog is a queue: what was sent is what was received followed by what
  waits. So a URL with a dropped string is never sent to the backlog after the seed; it is
  received at most once, and then it is the seed; a fetch of a dropped string is the fetch
  of the root, and a page with a dropped string from which a link was read is the root. A
  dropped string other than the root's is never received, never fetched, and no link is
  read from a page with that string.
\<close>

theorem dropped_URL_stays_in_site_map:
  assumes "NewDomainCrawler r cfg = Inr c" and "s = run lib sched (Crawl_start c)"
  shows "(\<forall>i lr u. i < length (workers s) \<and> workers s ! i = AtSelect lr u
            \<longrightarrow> url_String lib u \<in> admitted (siteMap s))
       \<and> (\<forall>k. k \<in> dropped (trace s) \<longrightarrow> k \<in> admitted (siteMap s))
       \<and> dropped (trace s) \<subseteq> set (handovers lib (tl (trace s)))
       \<and> distinct (handovers lib (tl (trace s)))
       \<and> WriteMap (siteMap s) out =
           (siteMap s,
            out @ concat (map (\<lambda>path. path @ [CHR 0x0A])
                    (sorted_list_of_set (admitted (siteMap s)))))
       \<and> trace s = Send (root c) # tl (trace s)
       \<and> sends (trace s) = recvs (trace s) @ pendingURLS s
       \<and> (\<forall>k. k \<in> dropped (trace s) \<longrightarrow>
            (\<forall>u. Send u \<in> set (tl (trace s)) \<longrightarrow> url_String lib u \<noteq> k)
            \<and> int (length (filter (\<lambda>u. url_String lib u = k) (recvs (trace s))))
                 \<le> (if url_String lib (root c) = k then 1 else 0)
            \<and> (Get k \<in> set (trace s) \<longrightarrow> url_String lib (root c) = k)
            \<and> (\<forall>u h. LinkRead u h \<in> set (trace s) \<and> url_String lib u = k \<longrightarrow> u = root c)
            \<and> (url_String lib (root c) \<noteq> k \<longrightarrow>
                  (\<forall>u. Recv u \<in> set (trace s) \<longrightarrow> url_String lib u \<noteq> k)
                  \<and> Get k \<notin> set (trace s)
                  \<and> (\<forall>u h. LinkRead u h \<in> set (trace s) \<longrightarrow> url_String lib u \<noteq> k)))"
proof -
  have inv: "inv_hand lib s" using assms by (simp add: inv_hand_run)
  have queue: "inv_queue lib c s" using assms by (simp add: inv_queue_run)
  have sel: "url_String lib u \<in> admitted (siteMap s)"
    if "i < length (workers s)" "workers s ! i = AtSelect lr u" for i lr u
  proof (rule ccontr)
    assume "url_String lib u \<notin> admitted (siteMap s)"
    then have "num (selecting lib (url_String lib u)) (workers s) = 0"
      using inv by (simp add: inv_hand_def)
    moreover have "1 \<le> num (selecting lib (url_String lib u)) (workers s)"
      using num_pos [OF that(1), of "selecting lib (url_String lib u)"] that(2) by simp
    ultimately show False by simp
  qed
  have dr: "k \<in> admitted (siteMap s)" if "k \<in> dropped (trace s)" for k
    using inv that by (auto simp: inv_hand_def)
  have c1: "\<forall>i lr u. i < length (workers s) \<and> workers s ! i = AtSelect lr u
            \<longrightarrow> url_String lib u \<in> admitted (siteMap s)"
    using sel by blast
  have c2: "\<forall>k. k \<in> dropped (trace s) \<longrightarrow> k \<in> admitted (siteMap s)"
    using dr by blast
  have c3: "dropped (trace s) \<subseteq> set (handovers lib (tl (trace s)))"
    and c4: "distinct (handovers lib (tl (trace s)))"
    using inv by (simp_all add: inv_hand_def)
  have c6: "trace s = Send (root c) # tl (trace s)"
    using queue by (cases "trace s") (simp_all add: inv_queue_def)
  have c7: "sends (trace s) = recvs (trace s) @ pendingURLS s"
    using queue by (simp add: inv_queue_def)
  have c8: "(\<forall>u. Send u \<in> set (tl (trace s)) \<longrightarrow> url_String lib u \<noteq> k)
            \<and> int (length (filter (\<lambda>u. url_String lib u = k) (recvs (trace s))))
                 \<le> (if url_String lib (root c) = k then 1 else 0)
            \<and> (Get k \<in> set (trace s) \<longrightarrow> url_String lib (root c) = k)
            \<and> (\<forall>u h. LinkRead u h \<in> set (trace s) \<and> url_String lib u = k \<longrightarrow> u = root c)
            \<and> (url_String lib (root c) \<noteq> k \<longrightarrow>
                  (\<forall>u. Recv u \<in> set (trace s) \<longrightarrow> url_String lib u \<noteq> k)
                  \<and> Get k \<notin> set (trace s)
                  \<and> (\<forall>u h. LinkRead u h \<in> set (trace s) \<longrightarrow> url_String lib u \<noteq> k))"
    if k: "k \<in> dropped (trace s)" for k
  proof -
    note d = dropped_crawl [OF assms k]
    have nr: "url_String lib u \<noteq> k"
      if "url_String lib (root c) \<noteq> k" "Recv u \<in> set (trace s)" for u
    proof
      assume "url_String lib u = k"
      then have "u \<in> set (filter (\<lambda>u. url_String lib u = k) (recvs (trace s)))"
        using that(2) by (simp add: set_recvs)
      moreover have "filter (\<lambda>u. url_String lib u = k) (recvs (trace s)) = []"
        using d(2) that(1) by simp
      ultimately show False by (simp only: set_simps empty_iff)
    qed
    have nl: "url_String lib u \<noteq> k"
      if "url_String lib (root c) \<noteq> k" "LinkRead u h \<in> set (trace s)" for u h
      using d(4) that by blast
    show ?thesis using d nr nl by blast
  qed
  show ?thesis
    using c1 c2 c3 c4 WriteMap_crawl [OF assms, of out] c6 c7 c8 by (intro conjI) blast+
qed

text \<open>
  The crawl of the small site with capacity 2: \<^verbatim>\<open>/d\<close> was dropped; it is admitted,
  was never received and never fetched. And the site whose root links back to itself, with
  capacity 1: the root's string was dropped and fetched, and it was received once.
\<close>

theorem dropped_URL_stays_in_site_map_witness:
  "''http://example.com/d'' \<in> dropped (trace (run demo_lib demo_schedule (Crawl_start demo_crawler)))
   \<and> url_String demo_lib (root demo_crawler) \<noteq> ''http://example.com/d''
   \<and> ''http://example.com/d''
       \<in> admitted (siteMap (run demo_lib demo_schedule (Crawl_start demo_crawler)))
   \<and> Get ''http://example.com/d''
       \<notin> set (trace (run demo_lib demo_schedule (Crawl_start demo_crawler)))
   \<and> filter (\<lambda>u. url_String demo_lib u = ''http://example.com/d'')
        (recvs (trace (run demo_lib demo_schedule (Crawl_start demo_crawler)))) = []
   \<and> distinct (handovers demo_lib (tl (trace (run demo_lib demo_schedule (Crawl_start demo_crawler)))))
   \<and> ''http://example.com/''
       \<in> dropped (trace (run demo_lib (replicate 11 (Worker 0)) (Crawl_start backlink_crawler)))
   \<and> Get ''http://example.com/''
       \<in> set (trace (run demo_lib (replicate 11 (Worker 0)) (Crawl_start backlink_crawler)))
   \<and> url_String demo_lib (root backlink_crawler) = ''http://example.com/''
   \<and> ''http://example.com/''
       \<in> admitted (siteMap (run demo_lib (replicate 11 (Worker 0)) (Crawl_start backlink_crawler)))
   \<and> int (length (filter (\<lambda>u. url_String demo_lib u = ''http://example.com/'')
        (recvs (trace (run demo_lib (replicate 11 (Worker 0)) (Crawl_start backlink_crawler))))))
       \<le> 1"
proof -
  let ?s = "run demo_lib demo_schedule (Crawl_start demo_crawler)"
  let ?k = "''http://example.com/d''"
  let ?b = "run demo_lib (replicate 11 (Worker 0)) (Crawl_start backlink_crawler)"
  let ?r = "''http://example.com/''"
  have d: "?k \<in> dropped (trace ?s)"
    unfolding dropped_def by code_simp
  have n: "url_String demo_lib (root demo_crawler) \<noteq> ?k"
    by code_simp
  from dropped_URL_stays_in_site_map [OF demo_new refl, of demo_lib demo_schedule] d
  have a: "?k \<in> admitted (siteMap ?s)"
    and h: "distinct (handovers demo_lib (tl (trace ?s)))"
    and "int (length (filter (\<lambda>u. url_String demo_lib u = ?k) (recvs (trace ?s))))
            \<le> (if url_String demo_lib (root demo_crawler) = ?k then 1 else 0)"
    and "url_String demo_lib (root demo_crawler) \<noteq> ?k \<longrightarrow> Get ?k \<notin> set (trace ?s)"
    by blast+
  with n have f: "filter (\<lambda>u. url_String demo_lib u = ?k) (recvs (trace ?s)) = []"
    and g: "Get ?k \<notin> set (trace ?s)"
    by simp_all
  have d': "?r \<in> dropped (trace ?b)"
    unfolding dropped_def by code_simp
  have g': "Get ?r \<in> set (trace ?b)"
    by code_simp
  from dropped_URL_stays_in_site_map [OF backlink_new refl, of demo_lib "replicate 11 (Worker 0)"] d'
  have a': "?r \<in> admitted (siteMap ?b)"
    and i: "Get ?r \<in> set (trace ?b) \<longrightarrow> url_String demo_lib (root backlink_crawler) = ?r"
    and l: "int (length (filter (\<lambda>u. url_String demo_lib u = ?r) (recvs (trace ?b))))
            \<le> (if url_String demo_lib (root backlink_crawler) = ?r then 1 else 0)"
    by blast+
  from i g' have r: "url_String demo_lib (root backlink_crawler) = ?r" by blast
  from l r have l': "int (length (filter (\<lambda>u. url_String demo_lib u = ?r) (recvs (trace ?b)))) \<le> 1"
    by (simp only: simp_thms if_True)
  from d n a g f h d' g' r a' l' show ?thesis by (intro conjI)
qed

text \<open>
  C9 as stated fails for the seed. \<^verbatim>\<open>NewDomainCrawler\<close> sends the root to the backlog
  without admitting it, so the first link back to the root is new to \<^verbatim>\<open>appendURL\<close>.
  The root links to \<^verbatim>\<open>/a\<close> and to itself, capacity 1, one worker, eleven steps of the
  worker: the root was received and fetched and two links were read from it; \<^verbatim>\<open>/a\<close>
  fills the backlog, the root's own string is admitted and dropped, and it is rendered.
\<close>

theorem dropped_seed_crawled_counterexample:
  "''http://example.com/''
     \<in> set (List.map_filter drop_page
          (trace (run demo_lib (replicate 11 (Worker 0)) (Crawl_start backlink_crawler))))
   \<and> lookupURL (siteURLS (siteMap (run demo_lib (replicate 11 (Worker 0))
         (Crawl_start backlink_crawler)))) ''http://example.com/''
   \<and> snd (WriteMap (siteMap (run demo_lib (replicate 11 (Worker 0))
         (Crawl_start backlink_crawler))) [])
       = ''http://example.com/\<newline>http://example.com/a\<newline>''
   \<and> filter (\<lambda>a. is_Recv a \<or> is_LinkRead a \<or> is_Send a \<or> is_drop a \<or> a = Get ''http://example.com/'')
        (trace (run demo_lib (replicate 11 (Worker 0)) (Crawl_start backlink_crawler)))
       = [Send demo_root, Recv demo_root, Get ''http://example.com/'',
          LinkRead demo_root ''/a'', Send demo_a, LinkRead demo_root ''/'',
          Log ErrorLevel ''too many pending urls, page will be ignored''
            [zap_String ''page'' ''http://example.com/'',
             zap_String ''link'' ''http://example.com/'']]"
  by code_simp

text \<open>
  The crawl of the small site again (capacity 2): \<^verbatim>\<open>/d\<close> and \<^verbatim>\<open>/e\<close> were dropped
  and never fetched, and the rendered site map has them.
\<close>

lemma dropped_URLs_rendered:
  "snd (WriteMap (siteMap (run demo_lib demo_schedule (Crawl_start demo_crawler))) [])
     = ''http://example.com/a\<newline>http://example.com/b\<newline>http://example.com/c\<newline>http://example.com/d\<newline>http://example.com/e\<newline>''
   \<and> List.map_filter drop_page (trace (run demo_lib demo_schedule (Crawl_start demo_crawler)))
     = [''http://example.com/d'', ''http://example.com/e'']
   \<and> \<not> List.member (trace (run demo_lib demo_schedule (Crawl_start demo_crawler)))
         (Get ''http://example.com/d'')"
  by code_simp

section \<open>The bounded push\<close>

lemma since_Recv_append:
  "since_Recv (tr @ as) = (if list_ex is_Recv as then since_Recv as else since_Recv tr @ as)"
proof (cases "list_ex is_Recv as")
  case True
  then obtain a where "a \<in> set (rev as)" "\<not> \<not> is_Recv a" by (auto simp: list_ex_iff)
  then have "takeWhile (\<lambda>a. \<not> is_Recv a) (rev as @ rev tr) = takeWhile (\<lambda>a. \<not> is_Recv a) (rev as)"
    by (rule takeWhile_append1)
  then show ?thesis using True by (simp add: since_Recv_def)
next
  case False
  then have "\<And>a. a \<in> set (rev as) \<Longrightarrow> \<not> is_Recv a" by (auto simp: list_ex_iff)
  then have "takeWhile (\<lambda>a. \<not> is_Recv a) (rev as @ rev tr)
      = rev as @ takeWhile (\<lambda>a. \<not> is_Recv a) (rev tr)"
    by (rule takeWhile_append2)
  then show ?thesis using False by (simp add: since_Recv_def)
qed

lemma since_Recv_Recv [simp]: "since_Recv [Recv p, a] = (if is_Recv a then [] else [a])"
  by (simp add: since_Recv_def)

lemma one_worker:
  assumes "length ws = Suc 0" and "i < length ws"
  shows "i = 0" and "ws = [ws ! 0]"
  using assms by (cases ws; simp)+

lemma start_page: "NewDomainCrawler r cfg = Inr c \<Longrightarrow> inv_page (Crawl_start c)"
  by (auto simp: NewDomainCrawler_def inv_page_def Crawl_start_def num_def filter_empty_conv
      split: option.splits)

lemma inv_page_clock [simp]: "inv_page (s\<lparr>clock := n\<rparr>) = inv_page s"
  by (simp add: inv_page_def)

lemma inv_page_worker:
  assumes inv: "inv_page s" and cap: "inv_cap s" and one: "length (workers s) = Suc 0"
    and i: "i < length (workers s)"
  shows "inv_page (worker_step lib i s (workers s ! i))"
proof -
  have i0: "i = 0" and ws: "workers s = [workers s ! 0]"
    using one_worker [OF one i] by simp_all
  define w where "w = workers s ! 0"
  have ws': "workers s = [w]" using ws by (simp add: w_def)
  have wi: "workers s ! i = w" using i0 by (simp add: w_def)
  have "inv_page (worker_step lib i s w)"
  proof (cases w)
    case AtRange
    then show ?thesis using inv ws' i0
      by (auto simp: inv_page_def goto_def emit_def since_Recv_append split: list.splits)
  next
    case (AtTimedOut u)
    then show ?thesis using inv ws' i0
      by (auto simp: inv_page_def goto_def emit_def panic_def since_Recv_append
          split: option.splits)
  next
    case (AtRead lr)
    then show ?thesis using inv ws' i0
      by (auto simp: inv_page_def goto_def emit_def Let_def since_Recv_append
          split: prod.splits sum.splits)
  next
    case (AtParse lr h)
    then show ?thesis using inv ws' i0
      by (auto simp: inv_page_def goto_def emit_def Let_def since_Recv_append split: sum.splits)
  next
    case (AtLock lr u)
    then show ?thesis using inv ws' i0
      by (auto simp: inv_page_def goto_def emit_def since_Recv_append split: prod.splits)
  next
    case (AtSelect lr u)
    then show ?thesis using inv cap ws' i0
      by (auto simp: inv_page_def inv_cap_def goto_def emit_def panic_def since_Recv_append)
  next
    case (AtAdd lr)
    then show ?thesis using inv ws' i0
      by (auto simp: inv_page_def goto_def emit_def since_Recv_append)
  next
    case AtDone
    then show ?thesis using inv ws' i0
      by (auto simp: inv_page_def goto_def emit_def panic_def since_Recv_append)
  next
    case Exited
    then show ?thesis using inv by simp
  qed
  then show ?thesis using wi by simp
qed

lemma length_workers_worker:
  "length (workers (worker_step lib i s w)) = length (workers s)"
  by (cases w)
     (auto simp: goto_def emit_def panic_def Let_def
        split: list.splits option.splits prod.splits sum.splits)

lemma length_workers_step: "length (workers (step lib a s)) = length (workers s)"
proof (induction rule: step_cases [where a = a and s = s and lib = lib])
  case 1
  then show ?case by simp
next
  case (2 i)
  then show ?case by (simp add: length_workers_worker)
next
  case 3
  then show ?case by simp
next
  case 4
  then show ?case by (cases "main s") (auto simp: emit_def panic_def)
qed

lemma inv_page_step:
  assumes "inv_page s" and "inv_cap s" and "length (workers s) = Suc 0"
  shows "inv_page (step lib a s)"
proof (induction rule: step_cases [where a = a and s = s and lib = lib])
  case 1
  then show ?case using assms by simp
next
  case (2 i)
  then show ?case using inv_page_worker [of s i lib] assms by simp
next
  case 3
  then show ?case using assms by (auto simp: inv_page_def)
next
  case 4
  then show ?case using assms
    by (cases "main s") (auto simp: inv_page_def emit_def panic_def since_Recv_append)
qed

subsection \<open>One worker: nothing is left when Wait returns, and no panic\<close>

lemma start_quiet: "inv_quiet (Crawl_start c)"
  by (simp add: inv_quiet_def Crawl_start_def)

lemma inv_quiet_clock [simp]: "inv_quiet (s\<lparr>clock := n\<rparr>) = inv_quiet s"
  by (simp add: inv_quiet_def)

lemma inv_quiet_worker:
  assumes inv: "inv_quiet s" and i: "i < length (workers s)"
  shows "inv_quiet (worker_step lib i s (workers s ! i))"
proof (cases "main s = AtWait")
  case True
  have "main (worker_step lib i s w) = main s" for w
    by (cases w)
       (auto simp: goto_def emit_def panic_def Let_def
          split: list.splits option.splits prod.splits sum.splits)
  then show ?thesis using True by (simp add: inv_quiet_def)
next
  case False
  then have q: "pendingURLS s = []" and b: "num busy (workers s) = 0"
    using inv by (simp_all add: inv_quiet_def)
  have nb: "\<not> busy (workers s ! i)" using num_pos [OF i, of busy] b by auto
  show ?thesis
  proof (cases "workers s ! i")
    case AtRange
    then show ?thesis using inv q b i by (simp add: inv_quiet_def goto_def)
  next
    case Exited
    then show ?thesis using inv by simp
  qed (use nb in simp_all)
qed

lemma inv_quiet_step:
  assumes "inv_quiet s" and "inv_acct s" and "inv_page s"
  shows "inv_quiet (step lib a s)"
proof (induction rule: step_cases [where a = a and s = s and lib = lib])
  case 1
  then show ?case using assms by simp
next
  case (2 i)
  then show ?case using inv_quiet_worker [of s i lib] assms by simp
next
  case 3
  then show ?case using assms by (auto simp: inv_quiet_def)
next
  case 4
  show ?case
  proof (cases "main s")
    case AtWait
    then have z: "pendingURLSRemaining s = 0" using 4 by simp
    then have "int (length (pendingURLS s)) + num owes (workers s) = 0"
      using counter_owes [OF assms(2)] by simp
    then have "int (length (pendingURLS s)) = 0" and o: "num owes (workers s) = 0"
      using num_nonneg [of owes "workers s"] by linarith+
    then have q: "pendingURLS s = []" by simp
    have "num at_add (workers s) = 0"
    proof (rule ccontr)
      assume "num at_add (workers s) \<noteq> 0"
      then have a: "0 < num at_add (workers s)"
        using num_nonneg [of at_add "workers s"] by linarith
      then have "0 < num busy (workers s)" using num_busy_split [of "workers s"] o by simp
      then show False using assms(3) a q by (simp add: inv_page_def)
    qed
    then have "num busy (workers s) = 0" using num_busy_split [of "workers s"] o by simp
    then show ?thesis using AtWait q by (simp add: inv_quiet_def emit_def)
  qed (use assms(1) in \<open>auto simp: inv_quiet_def emit_def panic_def\<close>)
qed

lemma panic_only_at_select:
  assumes "panicked s = None" and "panicked (step lib a s) \<noteq> None"
    and "inv_static c s" and "inv_acct s" and "inv_sync s"
  shows "\<exists>i. i < length (workers s) \<and> at_select (workers s ! i) \<and> pendingURLS_closed s"
proof -
  have p: "inv_panic (step lib a s)"
    using assms by (intro inv_panic_step [of s c lib a]) (simp_all add: inv_panic_def)
  show ?thesis using assms(1,2)
  proof (induction rule: step_cases [where a = a and s = s and lib = lib])
    case 1
    then show ?case by simp
  next
    case (2 i)
    show ?case
    proof (cases "workers s ! i")
      case (AtTimedOut u)
      have "Client (config s) \<noteq> None"
        using assms(3) Validate_None(3) [of "config c"] by (simp add: inv_static_def)
      then show ?thesis using 2 AtTimedOut
        by (auto simp: goto_def emit_def panic_def split: if_splits)
    next
      case AtDone
      then have "1 \<le> num owes (workers s)" using num_pos [OF 2(3), of owes] by simp
      then have "0 < pendingURLSRemaining s" using counter_owes [OF assms(4)] by simp
      then show ?thesis using 2 AtDone
        by (auto simp: goto_def emit_def panic_def split: if_splits)
    next
      case (AtSelect lr u)
      then show ?thesis using 2
        by (auto simp: goto_def emit_def panic_def split: if_splits)
    qed (use 2 in \<open>auto simp: goto_def emit_def panic_def Let_def
          split: list.splits sum.splits prod.splits if_splits\<close>)
  next
    case 3
    then show ?case by simp
  next
    case 4
    then show ?case using assms(5)
      by (cases "main s") (auto simp: inv_sync_def emit_def panic_def split: if_splits)
  qed
qed

lemma one_worker_run:
  assumes new: "NewDomainCrawler r cfg = Inr c" and one: "MaxConcurrency cfg = 1"
  shows "inv_page (run lib sched (Crawl_start c))
       \<and> inv_quiet (run lib sched (Crawl_start c))
       \<and> panicked (run lib sched (Crawl_start c)) = None"
proof -
  define P where "P s = (inv_all c s \<and> inv_page s \<and> inv_quiet s \<and> panicked s = None)" for s
  have cfg: "config c = cfg"
    using new by (auto simp: NewDomainCrawler_def split: option.splits)
  have "P (run lib sched (Crawl_start c))"
  proof (rule run_induct)
    have "inv_all c (run lib [] (Crawl_start c))" using new by (rule inv_all_run)
    moreover have "panicked (Crawl_start c) = None" by (simp add: Crawl_start_def)
    ultimately show "P (Crawl_start c)"
      using new by (simp add: P_def run_def start_page start_quiet)
  next
    fix s a
    assume p: "P s"
    then have all: "inv_all c s" and pg: "inv_page s" and qt: "inv_quiet s"
      and np: "panicked s = None"
      by (simp_all add: P_def)
    have st: "inv_static c s" and ac: "inv_acct s" and sy: "inv_sync s" and cp: "inv_cap s"
      using all by (simp_all add: inv_all_def)
    have len: "length (workers s) = Suc 0"
      using st one cfg by (simp add: inv_static_def)
    have all': "inv_all c (step lib a s)"
      using all inv_panic_step [of s c lib a]
      by (simp add: inv_all_def inv_static_step inv_acct_step inv_sync_step
          inv_count_step inv_cap_step)
    have pg': "inv_page (step lib a s)" using pg cp len by (rule inv_page_step)
    have qt': "inv_quiet (step lib a s)" using qt ac pg by (rule inv_quiet_step)
    have "panicked (step lib a s) = None"
    proof (rule ccontr)
      assume "panicked (step lib a s) \<noteq> None"
      then obtain i where i: "i < length (workers s)" "at_select (workers s ! i)"
        and cl: "pendingURLS_closed s"
        using panic_only_at_select [OF np _ st ac sy] by blast
      from cl have "main s \<noteq> AtWait" using sy by (auto simp: inv_sync_def)
      then have "num busy (workers s) = 0" using qt by (simp add: inv_quiet_def)
      moreover have "busy (workers s ! i)" using i(2) by (cases "workers s ! i") simp_all
      ultimately show False using num_pos [OF i(1), of busy] by simp
    qed
    with all' pg' qt' show "P (step lib a s)" by (simp add: P_def)
  qed
  then show ?thesis by (simp add: P_def)
qed

subsection \<open>The select\<close>

text \<open>
  The two statements of \<^verbatim>\<open>realAllLinks\<close> after \<^verbatim>\<open>appendURL\<close> returned true: the
  \<^verbatim>\<open>select\<close> with its \<^verbatim>\<open>default\<close> case, and \<^verbatim>\<open>pendingURLSRemaining.Add(1)\<close>.
\<close>

lemma select_step:
  assumes "i < length (workers s)" and "workers s ! i = AtSelect lr u"
    and "panicked s = None" and "\<not> pendingURLS_closed s"
  shows "\<not> blocked (Worker i) s"
    and "int (length (pendingURLS s)) < MaxPendingURLS (config s) \<Longrightarrow>
           step lib (Worker i) s =
             s\<lparr>pendingURLS := pendingURLS s @ [u],
               workers := (workers s)[i := AtAdd lr],
               trace := trace s @ [Send u,
                 Log DebugLevel ''page appended to channel''
                   [zap_String ''page'' (url_String lib u)]],
               clock := Suc (clock s)\<rparr>"
    and "\<not> int (length (pendingURLS s)) < MaxPendingURLS (config s) \<Longrightarrow>
           step lib (Worker i) s =
             s\<lparr>workers := (workers s)[i := AtRead lr],
               trace := trace s @ [Log ErrorLevel ''too many pending urls, page will be ignored''
                   [zap_String ''page'' (url_String lib u),
                    zap_String ''link'' (LinkReader_URL lib lr)]],
               clock := Suc (clock s)\<rparr>"
  using assms by (simp_all add: step_def goto_def emit_def)

lemma add_step:
  assumes "i < length (workers s)" and "workers s ! i = AtAdd lr" and "panicked s = None"
  shows "step lib (Worker i) s =
           s\<lparr>pendingURLSRemaining := pendingURLSRemaining s + 1,
             workers := (workers s)[i := AtRead lr],
             trace := trace s @ [WgAdd],
             clock := Suc (clock s)\<rparr>"
  using assms by (simp add: step_def goto_def emit_def)

lemma truncated_new: "NewDomainCrawler demo_root truncated_config = Inr truncated_crawler"
  by (simp add: NewDomainCrawler_def truncated_crawler_def truncated_config_def Validate_def
      NewConfig_def Let_def SetMaxConcurrency_def SetMaxPendingURLS_def DefaultKeepAlive_def
      DefaultTimeout_def Option.is_none_def)

text \<open>
  C3 (amended). In every state of every crawl, a worker at its \<^verbatim>\<open>select\<close> (the channel
  is open) can take its step, whatever the backlog holds: the push never blocks. If the
  backlog is below \<^verbatim>\<open>MaxPendingURLS\<close>, the step appends the URL to the backlog, and the
  worker's next step adds exactly one to \<^verbatim>\<open>pendingURLSRemaining\<close>; otherwise the step
  leaves the backlog, the counter and the site map as they are, writes the one entry at
  error level and goes on to the next link. The URLs handed over after the seed, sent or
  dropped, are pairwise distinct: a dropped URL is never retried. A crawl that has not
  returned and has not panicked can take a step: no deadlock. With \<^verbatim>\<open>MaxConcurrency\<close>
  1 no crawl panics, and when the worker has finished a page that it received while
  \<open>p\<close> URLs were waiting, the number of links sent is the smaller of the number of new
  links found on the page and \<^verbatim>\<open>MaxPendingURLS\<close> - \<open>p\<close>, and the others are dropped and
  logged; so a page received at an empty backlog (the root is one) that offers
  \<^verbatim>\<open>MaxPendingURLS\<close> + \<open>k\<close> new links, \<open>k\<close> > 0, has \<^verbatim>\<open>MaxPendingURLS\<close> of them
  sent and \<open>k\<close> dropped.
\<close>

theorem bounded_push:
  assumes "NewDomainCrawler r cfg = Inr c" and "s = run lib sched (Crawl_start c)"
  shows
    "(\<forall>i lr u. i < length (workers s) \<and> workers s ! i = AtSelect lr u
         \<and> panicked s = None \<and> \<not> pendingURLS_closed s \<longrightarrow>
       \<not> blocked (Worker i) s
       \<and> (if int (length (pendingURLS s)) < MaxPendingURLS cfg
          then pendingURLS (step lib (Worker i) s) = pendingURLS s @ [u]
             \<and> workers (step lib (Worker i) s) = (workers s)[i := AtAdd lr]
             \<and> pendingURLSRemaining (step lib (Worker i) s) = pendingURLSRemaining s
             \<and> pendingURLSRemaining (step lib (Worker i) (step lib (Worker i) s))
                 = pendingURLSRemaining s + 1
             \<and> trace (step lib (Worker i) (step lib (Worker i) s))
                 = trace s @ [Send u,
                     Log DebugLevel ''page appended to channel''
                       [zap_String ''page'' (url_String lib u)],
                     WgAdd]
          else pendingURLS (step lib (Worker i) s) = pendingURLS s
             \<and> workers (step lib (Worker i) s) = (workers s)[i := AtRead lr]
             \<and> pendingURLSRemaining (step lib (Worker i) s) = pendingURLSRemaining s
             \<and> siteMap (step lib (Worker i) s) = siteMap s
             \<and> trace (step lib (Worker i) s)
                 = trace s @ [Log ErrorLevel ''too many pending urls, page will be ignored''
                     [zap_String ''page'' (url_String lib u),
                      zap_String ''link'' (LinkReader_URL lib lr)]]))
     \<and> distinct (handovers lib (tl (trace s)))
     \<and> (panicked s = None \<and> Crawl_result s = None \<longrightarrow> (\<exists>a. \<not> blocked a s))
     \<and> (MaxConcurrency cfg = 1 \<longrightarrow>
          panicked s = None
          \<and> (\<forall>p. workers s = [AtDone]
                 \<and> int (length (pendingURLS s)) = p + num is_Send (since_Recv (trace s)) \<longrightarrow>
               num is_Send (since_Recv (trace s))
                 = min (num is_found (since_Recv (trace s))) (MaxPendingURLS cfg - p)
               \<and> num is_drop (since_Recv (trace s))
                 = num is_found (since_Recv (trace s)) - num is_Send (since_Recv (trace s)))
          \<and> (\<forall>k. 0 < k \<and> workers s = [AtDone]
                 \<and> int (length (pendingURLS s)) = num is_Send (since_Recv (trace s))
                 \<and> num is_found (since_Recv (trace s)) = MaxPendingURLS cfg + k \<longrightarrow>
               num is_Send (since_Recv (trace s)) = MaxPendingURLS cfg
               \<and> num is_drop (since_Recv (trace s)) = k))"
proof -
  have cfg: "config c = cfg"
    using assms(1) by (auto simp: NewDomainCrawler_def split: option.splits)
  have all: "inv_all c s" using assms by (simp add: inv_all_run)
  then have st: "inv_static c s" and ac: "inv_acct s" and sy: "inv_sync s" and cp: "inv_cap s"
    by (simp_all add: inv_all_def)
  have cs: "config s = cfg" using st cfg by (simp add: inv_static_def)
  have A: "\<not> blocked (Worker i) s
       \<and> (if int (length (pendingURLS s)) < MaxPendingURLS cfg
          then pendingURLS (step lib (Worker i) s) = pendingURLS s @ [u]
             \<and> workers (step lib (Worker i) s) = (workers s)[i := AtAdd lr]
             \<and> pendingURLSRemaining (step lib (Worker i) s) = pendingURLSRemaining s
             \<and> pendingURLSRemaining (step lib (Worker i) (step lib (Worker i) s))
                 = pendingURLSRemaining s + 1
             \<and> trace (step lib (Worker i) (step lib (Worker i) s))
                 = trace s @ [Send u,
                     Log DebugLevel ''page appended to channel''
                       [zap_String ''page'' (url_String lib u)],
                     WgAdd]
          else pendingURLS (step lib (Worker i) s) = pendingURLS s
             \<and> workers (step lib (Worker i) s) = (workers s)[i := AtRead lr]
             \<and> pendingURLSRemaining (step lib (Worker i) s) = pendingURLSRemaining s
             \<and> siteMap (step lib (Worker i) s) = siteMap s
             \<and> trace (step lib (Worker i) s)
                 = trace s @ [Log ErrorLevel ''too many pending urls, page will be ignored''
                     [zap_String ''page'' (url_String lib u),
                      zap_String ''link'' (LinkReader_URL lib lr)]])"
    if h: "i < length (workers s)" "workers s ! i = AtSelect lr u" "panicked s = None"
      "\<not> pendingURLS_closed s" for i lr u
  proof (cases "int (length (pendingURLS s)) < MaxPendingURLS cfg")
    case True
    let ?s1 = "step lib (Worker i) s"
    have s1: "?s1 = s\<lparr>pendingURLS := pendingURLS s @ [u],
               workers := (workers s)[i := AtAdd lr],
               trace := trace s @ [Send u,
                 Log DebugLevel ''page appended to channel''
                   [zap_String ''page'' (url_String lib u)]],
               clock := Suc (clock s)\<rparr>"
      using select_step(2) [OF h] True cs by simp
    have "i < length (workers ?s1)" "workers ?s1 ! i = AtAdd lr" "panicked ?s1 = None"
      using h by (simp_all add: s1)
    from add_step [OF this, of lib] have s2: "step lib (Worker i) ?s1 =
           ?s1\<lparr>pendingURLSRemaining := pendingURLSRemaining ?s1 + 1,
             workers := (workers ?s1)[i := AtRead lr],
             trace := trace ?s1 @ [WgAdd],
             clock := Suc (clock ?s1)\<rparr>" .
    show ?thesis using True select_step(1) [OF h]
      by (simp add: s2) (simp add: s1)
  next
    case False
    then show ?thesis using select_step(1) [OF h] select_step(3) [OF h, of lib] cs by simp
  qed
  have B: "distinct (handovers lib (tl (trace s)))"
    using inv_hand_run [OF assms(1), of lib sched] assms(2) by (simp add: inv_hand_def)
  have C: "\<exists>a. \<not> blocked a s" if "panicked s = None" "Crawl_result s = None"
    using progress [OF st ac sy that] .
  have D: "panicked s = None
          \<and> (\<forall>p. workers s = [AtDone]
                 \<and> int (length (pendingURLS s)) = p + num is_Send (since_Recv (trace s)) \<longrightarrow>
               num is_Send (since_Recv (trace s))
                 = min (num is_found (since_Recv (trace s))) (MaxPendingURLS cfg - p)
               \<and> num is_drop (since_Recv (trace s))
                 = num is_found (since_Recv (trace s)) - num is_Send (since_Recv (trace s)))
          \<and> (\<forall>k. 0 < k \<and> workers s = [AtDone]
                 \<and> int (length (pendingURLS s)) = num is_Send (since_Recv (trace s))
                 \<and> num is_found (since_Recv (trace s)) = MaxPendingURLS cfg + k \<longrightarrow>
               num is_Send (since_Recv (trace s)) = MaxPendingURLS cfg
               \<and> num is_drop (since_Recv (trace s)) = k)"
    if one: "MaxConcurrency cfg = 1"
  proof -
    have pg: "inv_page s" and np: "panicked s = None"
      using one_worker_run [OF assms(1) one, of lib sched] assms(2) by simp_all
    have le: "int (length (pendingURLS s)) \<le> MaxPendingURLS cfg"
      using cp cs by (simp add: inv_cap_def)
    have page: "num is_found (since_Recv (trace s))
          = num is_Send (since_Recv (trace s)) + num is_drop (since_Recv (trace s))"
      "0 < num is_drop (since_Recv (trace s)) \<Longrightarrow>
         int (length (pendingURLS s)) = MaxPendingURLS cfg"
      if "workers s = [AtDone]"
      using pg that cs by (simp_all add: inv_page_def)
    have nn: "0 \<le> num is_drop (since_Recv (trace s))" by simp
    show ?thesis
    proof (intro conjI allI impI)
      show "panicked s = None" by (rule np)
    next
      fix p
      assume a: "workers s = [AtDone]
                 \<and> int (length (pendingURLS s)) = p + num is_Send (since_Recv (trace s))"
      show "num is_Send (since_Recv (trace s))
                 = min (num is_found (since_Recv (trace s))) (MaxPendingURLS cfg - p)"
      proof (cases "0 < num is_drop (since_Recv (trace s))")
        case True
        from page(1) a have f: "num is_found (since_Recv (trace s))
          = num is_Send (since_Recv (trace s)) + num is_drop (since_Recv (trace s))" by simp
        from page(2) a True have "int (length (pendingURLS s)) = MaxPendingURLS cfg" by simp
        with a have "num is_Send (since_Recv (trace s)) = MaxPendingURLS cfg - p" by linarith
        with f True show ?thesis by linarith
      next
        case False
        with nn have z: "num is_drop (since_Recv (trace s)) = 0" by linarith
        from page(1) a have f: "num is_found (since_Recv (trace s))
          = num is_Send (since_Recv (trace s)) + num is_drop (since_Recv (trace s))" by simp
        from a le have "num is_Send (since_Recv (trace s)) \<le> MaxPendingURLS cfg - p"
          by linarith
        with f z show ?thesis by linarith
      qed
      show "num is_drop (since_Recv (trace s))
                 = num is_found (since_Recv (trace s)) - num is_Send (since_Recv (trace s))"
        using page(1) a by simp
    next
      fix k :: int
      assume a: "0 < k \<and> workers s = [AtDone]
                 \<and> int (length (pendingURLS s)) = num is_Send (since_Recv (trace s))
                 \<and> num is_found (since_Recv (trace s)) = MaxPendingURLS cfg + k"
      then have d: "0 < num is_drop (since_Recv (trace s))" using page(1) le by auto
      show "num is_Send (since_Recv (trace s)) = MaxPendingURLS cfg"
        using page(2) a d by simp
      then show "num is_drop (since_Recv (trace s)) = k" using page(1) a by simp
    qed
  qed
  show ?thesis using A B C D by blast
qed

text \<open>
  Capacity 1, one worker, twelve steps of the worker: the root has offered \<^verbatim>\<open>/a\<close> and
  \<^verbatim>\<open>/b\<close>, one was sent and one was dropped.
\<close>

theorem bounded_push_witness:
  "MaxConcurrency truncated_config = 1
   \<and> MaxPendingURLS truncated_config = 1
   \<and> at_done (workers (run demo_lib (replicate 12 (Worker 0)) (Crawl_start truncated_crawler)) ! 0)
   \<and> num is_found (since_Recv (trace (run demo_lib (replicate 12 (Worker 0))
         (Crawl_start truncated_crawler)))) = 1 + 1
   \<and> num is_Send (since_Recv (trace (run demo_lib (replicate 12 (Worker 0))
         (Crawl_start truncated_crawler)))) = 1
   \<and> num is_drop (since_Recv (trace (run demo_lib (replicate 12 (Worker 0))
         (Crawl_start truncated_crawler)))) = 1
   \<and> panicked (run demo_lib (replicate 12 (Worker 0)) (Crawl_start truncated_crawler)) = None"
proof -
  let ?s = "run demo_lib (replicate 12 (Worker 0)) (Crawl_start truncated_crawler)"
  have one: "MaxConcurrency truncated_config = 1" and cap: "MaxPendingURLS truncated_config = 1"
    by code_simp+
  have len: "length (workers ?s) = 1" and w0: "at_done (workers ?s ! 0)"
    and q: "int (length (pendingURLS ?s)) = num is_Send (since_Recv (trace ?s))"
    and f: "num is_found (since_Recv (trace ?s)) = 1 + 1"
    by code_simp+
  have "workers ?s = [workers ?s ! 0]"
    using len by (cases "workers ?s") simp_all
  moreover have "workers ?s ! 0 = AtDone"
    using w0 by (cases "workers ?s ! 0") simp_all
  ultimately have ws: "workers ?s = [AtDone]" by simp
  have k: "(0::int) < 1" by simp
  from bounded_push [OF truncated_new refl, of demo_lib "replicate 12 (Worker 0)"] one
  have np: "panicked ?s = None"
    and "\<forall>k. 0 < k \<and> workers ?s = [AtDone]
            \<and> int (length (pendingURLS ?s)) = num is_Send (since_Recv (trace ?s))
            \<and> num is_found (since_Recv (trace ?s)) = MaxPendingURLS truncated_config + k \<longrightarrow>
          num is_Send (since_Recv (trace ?s)) = MaxPendingURLS truncated_config
          \<and> num is_drop (since_Recv (trace ?s)) = k"
    by blast+
  from this(2) k ws q f cap
  have "num is_Send (since_Recv (trace ?s)) = 1 \<and> num is_drop (since_Recv (trace ?s)) = 1"
    by simp
  with one cap w0 f np show ?thesis by (intro conjI) simp_all
qed

text \<open>
  C3 as stated fails for a page that is received while the backlog is not empty. The site
  of the examples, capacity 2, one worker, thirty steps of the worker: the root has offered
  \<^verbatim>\<open>/a\<close> and \<^verbatim>\<open>/b\<close>; \<^verbatim>\<open>/a\<close> was received while \<^verbatim>\<open>/b\<close> was waiting, and has
  offered three new links, the capacity and one more; one of them was sent and two were
  dropped, where the claim has two retained and one dropped.
\<close>

theorem nonempty_backlog_counterexample:
  "MaxConcurrency demo_config = 1
   \<and> MaxPendingURLS demo_config = 2
   \<and> at_done (workers (run demo_lib (replicate 30 (Worker 0)) (Crawl_start demo_crawler)) ! 0)
   \<and> num is_found (since_Recv (trace (run demo_lib (replicate 30 (Worker 0))
         (Crawl_start demo_crawler)))) = 2 + 1
   \<and> num is_Send (since_Recv (trace (run demo_lib (replicate 30 (Worker 0))
         (Crawl_start demo_crawler)))) = 1
   \<and> num is_drop (since_Recv (trace (run demo_lib (replicate 30 (Worker 0))
         (Crawl_start demo_crawler)))) = 2
   \<and> List.map_filter drop_page (since_Recv (trace (run demo_lib (replicate 30 (Worker 0))
         (Crawl_start demo_crawler))))
       = [''http://example.com/d'', ''http://example.com/e'']
   \<and> map (url_String demo_lib)
        (pendingURLS (run demo_lib (replicate 30 (Worker 0)) (Crawl_start demo_crawler)))
       = [''http://example.com/b'', ''http://example.com/c'']"
  by code_simp

section \<open>Two workers: the send precedes its Add\<close>

lemma race_new: "NewDomainCrawler demo_root race_config = Inr race_crawler"
  by (simp add: NewDomainCrawler_def race_crawler_def race_config_def Validate_def NewConfig_def
      Let_def SetMaxConcurrency_def DefaultKeepAlive_def DefaultTimeout_def
      DefaultMaxPendingURLS_def Option.is_none_def)

text \<open>
  \<^verbatim>\<open>realAllLinks\<close> sends a URL and then calls \<^verbatim>\<open>pendingURLSRemaining.Add(1)\<close>. With two
  workers the other worker can receive the URL and call \<^verbatim>\<open>Done()\<close> in between: the
  counter is zero while the first worker is still reading its page, \<^verbatim>\<open>Wait()\<close> returns,
  \<^verbatim>\<open>Crawl\<close> closes the channel, and the first worker's next send panics. One worker
  has no such run: it receives again only after its \<^verbatim>\<open>Add(1)\<close>.
\<close>

lemma send_on_closed_channel:
  "panicked (run demo_lib race_schedule (Crawl_start race_crawler))
     = Some ''send on closed channel''
   \<and> panicked (run demo_lib (butlast race_schedule) (Crawl_start race_crawler)) = None
   \<and> pendingURLSRemaining (run demo_lib (take 10 race_schedule) (Crawl_start race_crawler)) = 0
   \<and> num at_add (workers (run demo_lib (take 10 race_schedule) (Crawl_start race_crawler))) = 1
   \<and> filter (\<lambda>a. is_Send a \<or> is_Recv a \<or> is_WgAdd a \<or> is_WgDone a \<or> is_WgWait a
                  \<or> is_CloseChan a)
        (trace (run demo_lib race_schedule (Crawl_start race_crawler)))
       = [Send demo_root, WgAdd, Recv demo_root, Send demo_a, Recv demo_a, WgDone, WgWait,
          CloseChan, WgAdd]"
  by code_simp

end
